theory Spec2Isabelle
  imports Main
begin

section \<open>Go strings, bytes and runes\<close>

text \<open>
  A Go \<open>string\<close> is a sequence of bytes; it is modelled as a HOL \<open>string\<close>, a list of
  8-bit characters. The offsets, widths and indices of the package (Go's \<open>int\<close>) are
  bounded by the length of the input and are modelled as \<open>nat\<close>; the 64-bit
  wrap-around never comes into play. A \<open>rune\<close> is an \<open>int32\<close> and can be negative
  (\<open>eof\<close> is \<open>-1\<close>); it is an \<open>int\<close> here.
\<close>

type_synonym rune = int

definition eof :: rune where
  "eof = -1"

definition RuneError :: rune where
  "RuneError = 0xFFFD"

definition byte :: "char \<Rightarrow> int" where
  "byte c = of_char c"

text \<open>
  \<open>utf8.DecodeRuneInString\<close> of the Go standard library, after its source: the table
  \<open>first\<close> classifies the leading byte (\<open>0xF0\<close> ASCII, \<open>0xF1\<close> invalid, otherwise the
  low three bits give the size of the encoding and the high four bits select the range
  the second byte must lie in), the continuation bytes must lie in \<open>0x80..0xBF\<close>, and
  any invalid or truncated encoding decodes to \<open>(RuneError, 1)\<close>. The masks and shifts
  of the source are written as \<open>mod\<close> and multiplication.
\<close>

definition utf8_first :: "int \<Rightarrow> int" where
  "utf8_first b =
     (if b < 0x80 then 0xF0
      else if b < 0xC2 then 0xF1
      else if b < 0xE0 then 0x02
      else if b = 0xE0 then 0x13
      else if b < 0xED then 0x03
      else if b = 0xED then 0x23
      else if b < 0xF0 then 0x03
      else if b = 0xF0 then 0x34
      else if b < 0xF4 then 0x04
      else if b = 0xF4 then 0x44
      else 0xF1)"

definition acceptRanges :: "int \<Rightarrow> int \<times> int" where
  "acceptRanges i =
     (if i = 0 then (0x80, 0xBF)
      else if i = 1 then (0xA0, 0xBF)
      else if i = 2 then (0x80, 0x9F)
      else if i = 3 then (0x90, 0xBF)
      else (0x80, 0x8F))"

definition DecodeRuneInString :: "string \<Rightarrow> rune \<times> nat" where
  "DecodeRuneInString s =
     (if length s < 1 then (RuneError, 0)
      else
        let s0 = byte (s ! 0); x = utf8_first s0 in
        if x \<ge> 0xF0 then (if x = 0xF0 then s0 else RuneError, 1)
        else
          let sz = x mod 8; (lo, hi) = acceptRanges (x div 16) in
          if int (length s) < sz then (RuneError, 1)
          else
            let s1 = byte (s ! 1) in
            if s1 < lo \<or> hi < s1 then (RuneError, 1)
            else if sz \<le> 2 then ((s0 mod 32) * 64 + s1 mod 64, 2)
            else
              let s2 = byte (s ! 2) in
              if s2 < 0x80 \<or> 0xBF < s2 then (RuneError, 1)
              else if sz \<le> 3 then ((s0 mod 16) * 4096 + (s1 mod 64) * 64 + s2 mod 64, 3)
              else
                let s3 = byte (s ! 3) in
                if s3 < 0x80 \<or> 0xBF < s3 then (RuneError, 1)
                else ((s0 mod 8) * 262144 + (s1 mod 64) * 4096 + (s2 mod 64) * 64
                        + s3 mod 64, 4))"

text \<open>
  \<open>strings.IndexByte\<close> and \<open>strings.IndexRune\<close>. The package only passes ASCII sets
  (\<open>" \t"\<close> and the tag alphabet) to \<open>IndexRune\<close>; for such a set every branch of the
  library function other than the ASCII one (\<open>RuneError\<close>, an invalid rune such as
  \<open>eof\<close>, a rune of several bytes) returns \<open>-1\<close>.
\<close>

fun IndexByte :: "string \<Rightarrow> int \<Rightarrow> int" where
  "IndexByte [] b = -1"
| "IndexByte (c # cs) b =
     (if byte c = b then 0
      else let i = IndexByte cs b in if i < 0 then -1 else i + 1)"

definition IndexRune :: "string \<Rightarrow> rune \<Rightarrow> int" where
  "IndexRune s r = (if 0 \<le> r \<and> r < 0x80 then IndexByte s r else -1)"

definition HasPrefix :: "string \<Rightarrow> string \<Rightarrow> bool" where
  "HasPrefix s prefix = (length s \<ge> length prefix \<and> take (length prefix) s = prefix)"

text \<open>
  The slice expressions \<open>s[a:]\<close> and \<open>s[a:b]\<close>. Go panics on bounds out of order or
  beyond the string; the parser only slices between offsets its cursor has passed
  (\<open>start \<le> whitespacePos \<le> pos \<le> len(input)\<close>).
\<close>

definition slice_from :: "string \<Rightarrow> nat \<Rightarrow> string" where
  "slice_from s a = drop a s"

definition slice :: "string \<Rightarrow> nat \<Rightarrow> nat \<Rightarrow> string" where
  "slice s a b = take (b - a) (drop a s)"

subsection \<open>Facts about decoding\<close>

lemma byte_range: "0 \<le> byte c" "byte c < 256"
proof -
  have "byte c = int (of_char c)" unfolding byte_def by (rule of_nat_of_char [symmetric])
  moreover have "(of_char c :: nat) < 256" by simp
  ultimately show "0 \<le> byte c" "byte c < 256" by simp_all
qed

lemma Decode_empty: "DecodeRuneInString [] = (RuneError, 0)"
  by (simp add: DecodeRuneInString_def)

lemma Decode_ascii:
  "byte c < 0x80 \<Longrightarrow> DecodeRuneInString (c # cs) = (byte c, 1)"
  by (simp add: DecodeRuneInString_def utf8_first_def)

lemma Decode_invalid_first:
  "utf8_first (byte c) = 0xF1 \<Longrightarrow> DecodeRuneInString (c # cs) = (RuneError, 1)"
  by (simp add: DecodeRuneInString_def)

text \<open>\<open>high_bytes s\<close>: every byte of \<open>s\<close> is outside ASCII.\<close>

definition high_bytes :: "string \<Rightarrow> bool" where
  "high_bytes s = (\<forall>x \<in> set s. byte x \<ge> 0x80)"

lemma Decode_multi:
  assumes x: "utf8_first (byte c) = x" "x < 0xF0" "2 \<le> x mod 8" "x mod 8 \<le> 4"
    and lo: "acceptRanges (x div 16) = (lo, hi)" "0x80 \<le> lo" "hi \<le> 0xBF"
    and b: "byte c \<ge> 0x80"
    and r2: "x mod 8 = 2 \<longrightarrow> 2 \<le> byte c mod 32"
    and r3: "x mod 8 = 3 \<longrightarrow> 1 \<le> byte c mod 16 \<or> 0xA0 \<le> lo"
    and r4: "x mod 8 = 4 \<longrightarrow> 1 \<le> byte c mod 8 \<or> 0x90 \<le> lo"
    and d: "DecodeRuneInString (c # cs) = (r, w)"
  shows "r \<ge> 0x80 \<and> 1 \<le> w \<and> w \<le> length (c # cs) \<and> high_bytes (take w (c # cs))"
proof (cases "int (length (c # cs)) < x mod 8")
  case True
  with d x b show ?thesis
    by (auto simp: DecodeRuneInString_def Let_def lo RuneError_def high_bytes_def)
next
  case False
  with x obtain c1 cs1 where cs: "cs = c1 # cs1" by (cases cs) auto
  show ?thesis
  proof (cases "byte c1 < lo \<or> hi < byte c1")
    case True
    with d x b False cs show ?thesis
      by (auto simp: DecodeRuneInString_def Let_def lo RuneError_def high_bytes_def)
  next
    case c1: False
    have c1hi: "byte c1 \<ge> 0x80" using c1 lo by simp
    have c1lo: "lo \<le> byte c1" "byte c1 \<le> 0xBF" using c1 lo by simp_all
    have m64: "0 \<le> v mod 64" for v :: int by simp
    show ?thesis
    proof (cases "x mod 8 \<le> 2")
      case True
      with x have "x mod 8 = 2" by simp
      with r2 have "2 \<le> byte c mod 32" by simp
      then have "128 \<le> byte c mod 32 * 64 + byte c1 mod 64"
        using m64 [of "byte c1"] by linarith
      with d x b False cs c1 True c1hi show ?thesis
        by (auto simp: DecodeRuneInString_def Let_def lo high_bytes_def)
    next
      case sz2: False
      with False cs obtain c2 cs2 where cs1: "cs1 = c2 # cs2" by (cases cs1) auto
      show ?thesis
      proof (cases "byte c2 < 0x80 \<or> 0xBF < byte c2")
        case True
        with d x b False cs c1 sz2 cs1 show ?thesis
          by (auto simp: DecodeRuneInString_def Let_def lo RuneError_def high_bytes_def)
      next
        case c2: False
        show ?thesis
        proof (cases "x mod 8 \<le> 3")
          case True
          with sz2 have "x mod 8 = 3" by simp
          with r3 have "1 \<le> byte c mod 16 \<or> 0xA0 \<le> lo" by simp
          moreover have "0xA0 \<le> lo \<Longrightarrow> 32 \<le> byte c1 mod 64"
            using c1lo by presburger
          ultimately have "128 \<le> byte c mod 16 * 4096 + byte c1 mod 64 * 64 + byte c2 mod 64"
            using m64 [of "byte c1"] m64 [of "byte c2"] by linarith
          with d x b False cs c1 sz2 cs1 c2 True c1hi show ?thesis
            by (auto simp: DecodeRuneInString_def Let_def lo high_bytes_def)
        next
          case sz3: False
          with x have sz4: "x mod 8 = 4" by simp
          with False cs cs1 obtain c3 cs3 where cs2: "cs2 = c3 # cs3" by (cases cs2) auto
          show ?thesis
          proof (cases "byte c3 < 0x80 \<or> 0xBF < byte c3")
            case True
            with d x b False cs c1 sz2 cs1 c2 sz3 cs2 show ?thesis
              by (auto simp: DecodeRuneInString_def Let_def lo RuneError_def high_bytes_def)
          next
            case c3: False
            from r4 sz4 have "1 \<le> byte c mod 8 \<or> 0x90 \<le> lo" by simp
            moreover have "0x90 \<le> lo \<Longrightarrow> 16 \<le> byte c1 mod 64"
              using c1lo by presburger
            ultimately have "128 \<le> byte c mod 8 * 262144 + byte c1 mod 64 * 4096
                + byte c2 mod 64 * 64 + byte c3 mod 64"
              using m64 [of "byte c1"] m64 [of "byte c2"] m64 [of "byte c3"] by linarith
            with d x b False cs c1 sz2 cs1 c2 sz3 cs2 c3 c1hi show ?thesis
              by (auto simp: DecodeRuneInString_def Let_def lo high_bytes_def)
          qed
        qed
      qed
    qed
  qed
qed

lemma Decode_cases:
  assumes d: "DecodeRuneInString (c # cs) = (r, w)"
  shows "(r = byte c \<and> byte c < 0x80 \<and> w = 1)
       \<or> (r \<ge> 0x80 \<and> 1 \<le> w \<and> w \<le> length (c # cs) \<and> high_bytes (take w (c # cs)))"
proof -
  have br: "0 \<le> byte c" "byte c < 256" by (rule byte_range)+
  consider "byte c < 0x80" | "0x80 \<le> byte c" "byte c < 0xC2" | "0xC2 \<le> byte c" "byte c < 0xE0"
    | "byte c = 0xE0" | "0xE0 < byte c" "byte c < 0xED" | "byte c = 0xED"
    | "0xED < byte c" "byte c < 0xF0" | "byte c = 0xF0" | "0xF0 < byte c" "byte c < 0xF4"
    | "byte c = 0xF4" | "0xF4 < byte c"
    by linarith
  then show ?thesis
  proof cases
    case 1
    with d show ?thesis by (simp add: Decode_ascii)
  next
    case 2
    then have "utf8_first (byte c) = 0xF1" by (simp add: utf8_first_def)
    with d 2 show ?thesis
      by (auto simp: Decode_invalid_first RuneError_def high_bytes_def)
  next
    case 3
    then have x: "utf8_first (byte c) = 0x02" by (simp add: utf8_first_def)
    have "2 \<le> byte c mod 32" using 3 by presburger
    with 3 show ?thesis
      using Decode_multi [OF x _ _ _ _ _ _ _ _ _ _ d, of "0x80" "0xBF"]
      by (simp add: acceptRanges_def)
  next
    case 4
    then have x: "utf8_first (byte c) = 0x13" by (simp add: utf8_first_def)
    with 4 show ?thesis
      using Decode_multi [OF x _ _ _ _ _ _ _ _ _ _ d, of "0xA0" "0xBF"]
      by (simp add: acceptRanges_def)
  next
    case 5
    then have x: "utf8_first (byte c) = 0x03" by (simp add: utf8_first_def)
    have "1 \<le> byte c mod 16" using 5 by presburger
    with 5 show ?thesis
      using Decode_multi [OF x _ _ _ _ _ _ _ _ _ _ d, of "0x80" "0xBF"]
      by (simp add: acceptRanges_def)
  next
    case 6
    then have x: "utf8_first (byte c) = 0x23" by (simp add: utf8_first_def)
    with 6 show ?thesis
      using Decode_multi [OF x _ _ _ _ _ _ _ _ _ _ d, of "0x80" "0x9F"]
      by (simp add: acceptRanges_def)
  next
    case 7
    then have x: "utf8_first (byte c) = 0x03" by (simp add: utf8_first_def)
    have "1 \<le> byte c mod 16" using 7 by presburger
    with 7 show ?thesis
      using Decode_multi [OF x _ _ _ _ _ _ _ _ _ _ d, of "0x80" "0xBF"]
      by (simp add: acceptRanges_def)
  next
    case 8
    then have x: "utf8_first (byte c) = 0x34" by (simp add: utf8_first_def)
    with 8 show ?thesis
      using Decode_multi [OF x _ _ _ _ _ _ _ _ _ _ d, of "0x90" "0xBF"]
      by (simp add: acceptRanges_def)
  next
    case 9
    then have x: "utf8_first (byte c) = 0x04" by (simp add: utf8_first_def)
    have "1 \<le> byte c mod 8" using 9 by presburger
    with 9 show ?thesis
      using Decode_multi [OF x _ _ _ _ _ _ _ _ _ _ d, of "0x80" "0xBF"]
      by (simp add: acceptRanges_def)
  next
    case 10
    then have x: "utf8_first (byte c) = 0x44" by (simp add: utf8_first_def)
    with 10 show ?thesis
      using Decode_multi [OF x _ _ _ _ _ _ _ _ _ _ d, of "0x80" "0x8F"]
      by (simp add: acceptRanges_def)
  next
    case 11
    then have "utf8_first (byte c) = 0xF1" by (simp add: utf8_first_def)
    with d 11 show ?thesis
      by (auto simp: Decode_invalid_first RuneError_def high_bytes_def)
  qed
qed

section \<open>The scanner\<close>

record lexer =
  input :: string
  start :: nat
  pos :: nat
  width :: nat

definition "next" :: "lexer \<Rightarrow> rune \<times> lexer" where
  "next l =
     (if pos l \<ge> length (input l) then (eof, l\<lparr>width := 0\<rparr>)
      else
        let (r, w) = DecodeRuneInString (slice_from (input l) (pos l)) in
        (r, l\<lparr>pos := pos l + w, width := w\<rparr>))"

text \<open>
  The only subtraction on offsets is the one of \<open>backup\<close>, \<open>l.pos -= l.width\<close>. After
  a \<open>next\<close> the width is what that \<open>next\<close> added to \<open>pos\<close>, so the difference is exact;
  the one place where the source backs up twice is the error return of
  \<open>acceptOptionalFws\<close>, after which every caller drops the lexer.
\<close>

definition backup :: "lexer \<Rightarrow> lexer" where
  "backup l = l\<lparr>pos := pos l - width l\<rparr>"

definition peek :: "lexer \<Rightarrow> rune \<times> lexer" where
  "peek l = (let (r, l') = next l in (r, backup l'))"

definition ignore :: "lexer \<Rightarrow> lexer" where
  "ignore l = l\<lparr>start := pos l\<rparr>"

definition accept :: "string \<Rightarrow> lexer \<Rightarrow> bool \<times> lexer" where
  "accept valid l =
     (let (r, l') = next l in
      if IndexRune valid r \<ge> 0 then (True, l') else (False, backup l'))"

text \<open>The loop of \<open>acceptRun\<close>: \<open>for strings.IndexRune(valid, l.next()) >= 0 {}\<close>.\<close>

lemma IndexByte_nonneg: "IndexByte s b \<ge> -1"
  by (induction s) (auto simp: Let_def)

lemma IndexByte_ge0_iff: "IndexByte s b \<ge> 0 \<longleftrightarrow> b \<in> byte ` set s"
proof (induction s)
  case Nil
  show ?case by simp
next
  case (Cons c cs)
  have "IndexByte cs b \<ge> -1" by (rule IndexByte_nonneg)
  with Cons show ?case by (auto simp: Let_def)
qed

lemma IndexRune_ge0_iff:
  "IndexRune s r \<ge> 0 \<longleftrightarrow> 0 \<le> r \<and> r < 0x80 \<and> r \<in> byte ` set s"
  by (auto simp: IndexRune_def IndexByte_ge0_iff)

lemma next_input [simp]: "input (snd (next l)) = input l"
  by (simp add: next_def Let_def split: prod.splits)

lemma next_start [simp]: "start (snd (next l)) = start l"
  by (simp add: next_def Let_def split: prod.splits)

lemma Decode_nonneg: "DecodeRuneInString s = (r, w) \<Longrightarrow> 0 \<le> r"
proof (cases s)
  case Nil
  assume "DecodeRuneInString s = (r, w)"
  with Nil show ?thesis by (simp add: Decode_empty RuneError_def)
next
  case (Cons c cs)
  assume "DecodeRuneInString s = (r, w)"
  with Cons have "DecodeRuneInString (c # cs) = (r, w)" by simp
  from Decode_cases [OF this] byte_range(1) [of c] show ?thesis by auto
qed

lemma next_advances:
  assumes "next l = (r, l')" and "r \<noteq> eof"
  shows "pos l < pos l' \<and> pos l' \<le> length (input l) \<and> pos l < length (input l)"
proof -
  from assms have lt: "pos l < length (input l)"
    by (auto simp: next_def split: if_splits)
  then obtain c cs where dr: "drop (pos l) (input l) = c # cs"
    by (cases "drop (pos l) (input l)") auto
  obtain r0 w where d: "DecodeRuneInString (c # cs) = (r0, w)" by force
  from assms(1) lt dr d have l': "l' = l\<lparr>pos := pos l + w, width := w\<rparr>"
    by (simp add: next_def slice_from_def)
  have "length (c # cs) = length (input l) - pos l"
    using dr [symmetric] by simp
  moreover from Decode_cases [OF d] have "1 \<le> w \<and> w \<le> length (c # cs)" by auto
  ultimately show ?thesis using lt l' by auto
qed

function acceptRun_loop :: "string \<Rightarrow> lexer \<Rightarrow> lexer" where
  "acceptRun_loop valid l =
     (let (r, l') = next l in
      if IndexRune valid r \<ge> 0 then acceptRun_loop valid l' else l')"
  by pat_completeness auto
termination
proof (relation "measure (\<lambda>(valid, l). length (input l) - pos l)")
  show "wf (measure (\<lambda>(valid, l). length (input l) - pos l))" by simp
next
  fix valid :: string and l :: lexer and x :: "rune \<times> lexer" and r l'
  assume x: "x = next l" "(r, l') = x" and ok: "0 \<le> IndexRune valid r"
  from ok have "r \<noteq> eof" by (auto simp: IndexRune_ge0_iff eof_def)
  with x next_advances [of l r l'] have "pos l < pos l'" "pos l' \<le> length (input l)" by auto
  moreover from x have "input l' = input l" using next_input [of l] by (metis snd_conv)
  ultimately show "((valid, l'), (valid, l)) \<in> measure (\<lambda>(valid, l). length (input l) - pos l)"
    by simp
qed

declare acceptRun_loop.simps [simp del]

definition acceptRun :: "string \<Rightarrow> lexer \<Rightarrow> lexer" where
  "acceptRun valid l = backup (acceptRun_loop valid l)"

definition acceptTagRun :: "lexer \<Rightarrow> lexer" where
  "acceptTagRun l =
     acceptRun ''abcdefghijklmnopqrstuvwxyzABCDEFGHIJKLMNOPQRSTUVWXYZ0123456789_'' l"

section \<open>Items, errors and folding whitespace\<close>

record Item =
  Tag :: string
  Value :: string
  TagPos :: nat
  ValuePos :: nat

record ParseError =
  Message :: string
  Pos :: nat

text \<open>
  A Go \<open>error\<close> is an interface value. The package produces two dynamic types: its own
  \<open>ParseError\<close> (a message and a position) and the \<open>*errorString\<close> of \<open>errors.New\<close>
  (a message only).
\<close>

datatype error = ParseError_error ParseError | errorString string

fun Error :: "error \<Rightarrow> string" where
  "Error (ParseError_error e) = Message e"
| "Error (errorString s) = s"

definition acceptOptionalFws :: "lexer \<Rightarrow> error option \<times> lexer" where
  "acceptOptionalFws l =
     (let l1 = acceptRun [CHR '' '', CHR 0x09] l in
      if HasPrefix (slice_from (input l1) (pos l1)) [CHR 0x0D, CHR 0x0A] then
        let l2 = l1\<lparr>pos := pos l1 + 2\<rparr>;
            (ok, l3) = accept [CHR '' '', CHR 0x09] l2
        in if ok then (None, acceptRun [CHR '' '', CHR 0x09] l3)
           else (Some (errorString ''malformed folding whitespace''), backup l3)
      else (None, l1))"

definition skipOptionalFws :: "lexer \<Rightarrow> error option \<times> lexer" where
  "skipOptionalFws l =
     (case acceptOptionalFws l of
        (Some err, l') \<Rightarrow> (Some err, l')
      | (None, l') \<Rightarrow> (None, ignore l'))"

text \<open>
  \<open>inset valid c\<close>: the byte \<open>c\<close> is consumed by \<open>accept\<close> and \<open>acceptRun\<close> for the
  ASCII set \<open>valid\<close>.
\<close>

definition inset :: "string \<Rightarrow> char \<Rightarrow> bool" where
  "inset valid c = (byte c < 0x80 \<and> c \<in> set valid)"

lemma byte_inj: "byte a = byte b \<longleftrightarrow> a = b"
  by (simp add: byte_def)

lemma next_eof: "length (input l) \<le> pos l \<Longrightarrow> next l = (eof, l\<lparr>width := 0\<rparr>)"
  by (simp add: next_def)

lemma next_Nil: "drop (pos l) (input l) = [] \<Longrightarrow> next l = (eof, l\<lparr>width := 0\<rparr>)"
  by (simp add: next_def)

lemma next_Cons:
  assumes "drop (pos l) (input l) = c # cs"
  shows "\<exists>r w. next l = (r, l\<lparr>pos := pos l + w, width := w\<rparr>)
           \<and> ((r = byte c \<and> byte c < 0x80 \<and> w = 1)
             \<or> (r \<ge> 0x80 \<and> byte c \<ge> 0x80 \<and> 1 \<le> w \<and> w \<le> length (c # cs) \<and> high_bytes (take w (c # cs))))"
proof -
  obtain r w where d: "DecodeRuneInString (c # cs) = (r, w)" by force
  from assms have "pos l < length (input l)"
    by (cases "pos l < length (input l)") auto
  with assms d have "next l = (r, l\<lparr>pos := pos l + w, width := w\<rparr>)"
    by (simp add: next_def slice_from_def)
  moreover from Decode_cases [OF d]
  have "(r = byte c \<and> byte c < 0x80 \<and> w = 1)
             \<or> (r \<ge> 0x80 \<and> byte c \<ge> 0x80 \<and> 1 \<le> w \<and> w \<le> length (c # cs) \<and> high_bytes (take w (c # cs)))"
    by (cases w) (auto simp: high_bytes_def)
  ultimately show ?thesis by blast
qed

lemma next_ascii:
  "drop (pos l) (input l) = c # cs \<Longrightarrow> byte c < 0x80 \<Longrightarrow>
     next l = (byte c, l\<lparr>pos := pos l + 1, width := 1\<rparr>)"
  using next_Cons [of l c cs] by auto

lemma acceptRun_loop_eq:
  "\<exists>w. acceptRun_loop valid l =
     l\<lparr>pos := pos l + length (takeWhile (inset valid) (drop (pos l) (input l))) + w, width := w\<rparr>"
proof (induction valid l rule: acceptRun_loop.induct)
  case (1 valid l)
  show ?case
  proof (cases "drop (pos l) (input l)")
    case Nil
    then have "acceptRun_loop valid l = l\<lparr>width := 0\<rparr>"
      by (subst acceptRun_loop.simps) (simp add: next_Nil IndexRune_def eof_def)
    with Nil show ?thesis by (intro exI [of _ 0]) simp
  next
    case (Cons c cs)
    from next_Cons [OF Cons] obtain r w where
      n: "next l = (r, l\<lparr>pos := pos l + w, width := w\<rparr>)" and
      rw: "(r = byte c \<and> byte c < 0x80 \<and> w = 1)
             \<or> (r \<ge> 0x80 \<and> byte c \<ge> 0x80 \<and> 1 \<le> w \<and> w \<le> length (c # cs) \<and> high_bytes (take w (c # cs)))"
      by blast
    show ?thesis
    proof (cases "IndexRune valid r \<ge> 0")
      case True
      then have r: "r = byte c" "byte c < 0x80" "w = 1" "c \<in> set valid"
        using rw by (auto simp: IndexRune_ge0_iff byte_inj)
      have dr: "drop (Suc (pos l)) (input l) = cs"
        using Cons by (metis drop_Suc tl_drop list.sel(3))
      from "1.IH" [OF refl n [symmetric] True] r dr
      obtain w' where "acceptRun_loop valid (l\<lparr>pos := pos l + 1, width := 1\<rparr>) =
           l\<lparr>pos := pos l + 1 + length (takeWhile (inset valid) cs) + w', width := w'\<rparr>"
        by auto
      with True n r Cons have "acceptRun_loop valid l =
           l\<lparr>pos := pos l + length (takeWhile (inset valid) (c # cs)) + w', width := w'\<rparr>"
        by (subst acceptRun_loop.simps) (simp add: inset_def)
      with Cons show ?thesis by (intro exI [of _ w']) simp
    next
      case False
      then have "\<not> inset valid c"
        using rw by (auto simp: IndexRune_ge0_iff inset_def byte_range)
      with False n Cons have "acceptRun_loop valid l = l\<lparr>pos := pos l + w, width := w\<rparr>"
        by (subst acceptRun_loop.simps) simp
      with \<open>\<not> inset valid c\<close> Cons show ?thesis by (intro exI [of _ w]) simp
    qed
  qed
qed

lemma acceptRun_eq:
  "\<exists>w. acceptRun valid l =
     l\<lparr>pos := pos l + length (takeWhile (inset valid) (drop (pos l) (input l))), width := w\<rparr>"
proof -
  from acceptRun_loop_eq [of valid l] obtain w where
    "acceptRun_loop valid l =
       l\<lparr>pos := pos l + length (takeWhile (inset valid) (drop (pos l) (input l))) + w, width := w\<rparr>"
    by blast
  then show ?thesis by (intro exI [of _ w]) (simp add: acceptRun_def backup_def)
qed


lemma acceptRun_pos:
  "pos (acceptRun valid l) = pos l + length (takeWhile (inset valid) (drop (pos l) (input l)))"
  using acceptRun_eq [of valid l] by auto

lemma acceptRun_input [simp]: "input (acceptRun valid l) = input l"
  using acceptRun_eq [of valid l] by auto

lemma acceptRun_start [simp]: "start (acceptRun valid l) = start l"
  using acceptRun_eq [of valid l] by auto

text \<open>
  What \<open>acceptOptionalFws\<close> does, read off the remaining input: \<open>fws_len s\<close> is the
  number of bytes it consumes at the front of \<open>s\<close> (a run of spaces and tabs, then
  possibly CRLF and a non-empty run of spaces and tabs), or \<open>None\<close> when the CRLF is
  not followed by a space or tab.
\<close>

definition wsp :: "char \<Rightarrow> bool" where
  "wsp c = (c = CHR '' '' \<or> c = CHR 0x09)"

definition fws_len :: "string \<Rightarrow> nat option" where
  "fws_len s =
     (let a = takeWhile wsp s; s1 = dropWhile wsp s in
      if take 2 s1 = [CHR 0x0D, CHR 0x0A] then
        (let b = takeWhile wsp (drop 2 s1) in
         if b = [] then None else Some (length a + 2 + length b))
      else Some (length a))"

lemma inset_wsp: "inset [CHR '' '', CHR 0x09] = wsp"
  by (auto simp: inset_def wsp_def byte_def fun_eq_iff)

lemma HasPrefix_CRLF: "HasPrefix s [CHR 0x0D, CHR 0x0A] \<longleftrightarrow> take 2 s = [CHR 0x0D, CHR 0x0A]"
proof -
  have len: "length [CHR 0x0D, CHR 0x0A] = 2" by simp
  have "2 \<le> length s" if "take 2 s = [CHR 0x0D, CHR 0x0A]"
    using arg_cong [OF that, of length] by simp
  then show ?thesis unfolding HasPrefix_def len by blast
qed

lemma byte_mem: "byte c \<in> byte ` A \<longleftrightarrow> c \<in> A"
  by (auto simp: byte_inj)

lemma accept_wsp:
  "input (snd (accept [CHR '' '', CHR 0x09] l)) = input l"
  "start (snd (accept [CHR '' '', CHR 0x09] l)) = start l"
  "fst (accept [CHR '' '', CHR 0x09] l) \<longleftrightarrow> takeWhile wsp (take 1 (drop (pos l) (input l))) \<noteq> []"
  "pos (snd (accept [CHR '' '', CHR 0x09] l)) = pos l + length (takeWhile wsp (take 1 (drop (pos l) (input l))))"
proof -
  let ?P = "\<lambda>x. input (snd x) = input l \<and> start (snd x) = start l
     \<and> (fst x \<longleftrightarrow> takeWhile wsp (take 1 (drop (pos l) (input l))) \<noteq> [])
     \<and> pos (snd x) = pos l + length (takeWhile wsp (take 1 (drop (pos l) (input l))))"
  have "?P (accept [CHR '' '', CHR 0x09] l)"
  proof (cases "drop (pos l) (input l)")
    case Nil
    then show ?thesis
      by (simp add: accept_def next_Nil IndexRune_def eof_def backup_def)
  next
    case (Cons c cs)
    from next_Cons [OF Cons] obtain r w where
      n: "next l = (r, l\<lparr>pos := pos l + w, width := w\<rparr>)" and
      rw: "(r = byte c \<and> byte c < 0x80 \<and> w = 1)
           \<or> (r \<ge> 0x80 \<and> byte c \<ge> 0x80 \<and> 1 \<le> w \<and> w \<le> length (c # cs) \<and> high_bytes (take w (c # cs)))"
      by blast
    have iff: "IndexRune [CHR '' '', CHR 0x09] r \<ge> 0 \<longleftrightarrow> wsp c"
    proof (cases "byte c < 0x80")
      case True
      with rw have r: "r = byte c" by auto
      have "IndexRune [CHR '' '', CHR 0x09] (byte c) \<ge> 0 \<longleftrightarrow> c \<in> set [CHR '' '', CHR 0x09]"
        using True by (simp only: IndexRune_ge0_iff byte_mem byte_range simp_thms)
      then show ?thesis unfolding r by (simp add: wsp_def)
    next
      case False
      with rw have "r \<ge> 0x80" by auto
      moreover from False have "\<not> wsp c" by (auto simp: wsp_def byte_def)
      ultimately show ?thesis by (simp add: IndexRune_ge0_iff)
    qed
    show ?thesis
    proof (cases "wsp c")
      case True
      with iff rw have "w = 1" by (auto simp: IndexRune_ge0_iff)
      with True iff n Cons show ?thesis
        by (simp add: accept_def)
    next
      case False
      with iff n Cons show ?thesis
        by (simp add: accept_def backup_def)
    qed
  qed
  then show "input (snd (accept [CHR '' '', CHR 0x09] l)) = input l"
  "start (snd (accept [CHR '' '', CHR 0x09] l)) = start l"
  "fst (accept [CHR '' '', CHR 0x09] l) \<longleftrightarrow> takeWhile wsp (take 1 (drop (pos l) (input l))) \<noteq> []"
  "pos (snd (accept [CHR '' '', CHR 0x09] l)) = pos l + length (takeWhile wsp (take 1 (drop (pos l) (input l))))"
    by blast+
qed

lemma takeWhile_take1:
  "takeWhile q (take (Suc 0) s) = [] \<longleftrightarrow> takeWhile q s = []"
  by (cases s) auto

lemma takeWhile_take1_len:
  "takeWhile q s \<noteq> [] \<Longrightarrow>
     length (takeWhile q (take (Suc 0) s)) + length (takeWhile q (drop (Suc 0) s)) = length (takeWhile q s)"
  by (cases s) (auto split: if_splits)

lemma acceptOptionalFws_eq:
  "input (snd (acceptOptionalFws l)) = input l"
  "start (snd (acceptOptionalFws l)) = start l"
  "fws_len (drop (pos l) (input l)) = None \<Longrightarrow>
     fst (acceptOptionalFws l) = Some (errorString ''malformed folding whitespace'')"
  "fws_len (drop (pos l) (input l)) = Some n \<Longrightarrow>
     fst (acceptOptionalFws l) = None \<and> pos (snd (acceptOptionalFws l)) = pos l + n"
proof -
  define rest where "rest = drop (pos l) (input l)"
  define a where "a = takeWhile wsp rest"
  define s1 where "s1 = dropWhile wsp rest"
  define l1 where "l1 = acceptRun [CHR '' '', CHR 0x09] l"
  have l1: "input l1 = input l" "start l1 = start l" "pos l1 = pos l + length a"
    by (simp_all add: l1_def acceptRun_pos inset_wsp a_def rest_def)
  have d1: "drop (pos l1) (input l1) = s1"
    unfolding l1 a_def s1_def rest_def
    by (metis add.commute drop_drop dropWhile_eq_drop)
  define l2 where "l2 = l1\<lparr>pos := pos l1 + 2\<rparr>"
  define s2 where "s2 = drop 2 s1"
  have l2: "input l2 = input l" "start l2 = start l" "pos l2 = pos l + length a + 2"
    by (simp_all add: l2_def l1)
  have "drop (pos l2) (input l2) = drop 2 (drop (pos l1) (input l1))"
    by (simp add: l2_def ac_simps)
  then have d2: "drop (pos l2) (input l2) = s2"
    by (simp only: d1 s2_def)
  define x where "x = accept [CHR '' '', CHR 0x09] l2"
  have x: "input (snd x) = input l" "start (snd x) = start l"
    "fst x \<longleftrightarrow> takeWhile wsp s2 \<noteq> []"
    "pos (snd x) = pos l2 + length (takeWhile wsp (take 1 s2))"
    unfolding x_def using accept_wsp [of l2] unfolding d2 by (simp_all add: l2 takeWhile_take1)
  have "acceptOptionalFws l =
      (if take 2 (drop (pos l1) (input l1)) = [CHR 0x0D, CHR 0x0A] then
         if fst x then (None, acceptRun [CHR '' '', CHR 0x09] (snd x))
         else (Some (errorString ''malformed folding whitespace''), backup (snd x))
       else (None, l1))"
    by (simp only: acceptOptionalFws_def Let_def HasPrefix_CRLF slice_from_def case_prod_beta
          x_def l2_def l1_def)
  then have unf: "acceptOptionalFws l =
      (if take 2 s1 = [CHR 0x0D, CHR 0x0A] then
         if fst x then (None, acceptRun [CHR '' '', CHR 0x09] (snd x))
         else (Some (errorString ''malformed folding whitespace''), backup (snd x))
       else (None, l1))"
    by (simp only: d1)
  show "input (snd (acceptOptionalFws l)) = input l"
    unfolding unf by (simp add: l1 x backup_def)
  show "start (snd (acceptOptionalFws l)) = start l"
    unfolding unf by (simp add: l1 x backup_def)
  have f: "fws_len rest = (if take 2 s1 = [CHR 0x0D, CHR 0x0A] then
        if takeWhile wsp s2 = [] then None else Some (length a + 2 + length (takeWhile wsp s2))
        else Some (length a))"
    by (simp add: fws_len_def Let_def a_def s1_def s2_def)
  show "fst (acceptOptionalFws l) = Some (errorString ''malformed folding whitespace'')"
    if "fws_len (drop (pos l) (input l)) = None"
    using that unfolding unf rest_def [symmetric] f by (simp add: x split: if_splits)
  show "fst (acceptOptionalFws l) = None \<and> pos (snd (acceptOptionalFws l)) = pos l + n"
    if "fws_len (drop (pos l) (input l)) = Some n"
  proof (cases "take 2 s1 = [CHR 0x0D, CHR 0x0A]")
    case False
    with that show ?thesis unfolding unf rest_def [symmetric] f by (simp add: l1)
  next
    case True
    with that have ne: "takeWhile wsp s2 \<noteq> []" and n: "n = length a + 2 + length (takeWhile wsp s2)"
      unfolding rest_def [symmetric] f by (auto split: if_splits)
    from ne x have px: "pos (snd x) = pos l2 + 1" and fx: "fst x"
      by (cases s2; auto split: if_splits)+
    from px have "drop (pos (snd x)) (input (snd x)) = drop 1 (drop (pos l2) (input l2))"
      by (simp add: x l2)
    then have d3: "drop (pos (snd x)) (input (snd x)) = drop 1 s2"
      by (simp only: d2)
    have p3: "pos (acceptRun [CHR '' '', CHR 0x09] (snd x))
        = pos (snd x) + length (takeWhile wsp (drop 1 s2))"
      by (simp only: acceptRun_pos inset_wsp d3)
    have "length (takeWhile wsp s2) = 1 + length (takeWhile wsp (drop 1 s2))"
      using ne by (cases s2) (auto split: if_splits)
    then show ?thesis
      unfolding unf using True fx by (simp add: p3 px l2 n)
  qed
qed

lemma next_backup:
  "next l = (r, l') \<Longrightarrow> input (backup l') = input l \<and> start (backup l') = start l \<and> pos (backup l') = pos l"
proof (cases "drop (pos l) (input l)")
  case Nil
  assume "next l = (r, l')"
  with Nil show ?thesis by (auto simp: next_Nil backup_def)
next
  case (Cons c cs)
  assume "next l = (r, l')"
  with next_Cons [OF Cons] show ?thesis by (auto simp: backup_def)
qed

lemma acceptOptionalFws_mono:
  assumes "acceptOptionalFws l = (None, l')"
  shows "input l' = input l" "start l' = start l" "pos l \<le> pos l'"
proof -
  from assms acceptOptionalFws_eq(1,2) [of l] show "input l' = input l" "start l' = start l"
    by simp_all
  show "pos l \<le> pos l'"
  proof (cases "fws_len (drop (pos l) (input l))")
    case None
    from acceptOptionalFws_eq(3) [OF this] assms show ?thesis by simp
  next
    case (Some n)
    from acceptOptionalFws_eq(4) [OF this] assms show ?thesis by simp
  qed
qed

section \<open>The tag-list parser\<close>

text \<open>
  The value scan of \<open>NewTagValue\<close>: the loop labelled \<open>value:\<close> has the inner
  \<open>for\<close> as its whole body, and that loop is left only by \<open>break value\<close> or by a
  \<open>return\<close>, so the pair is one recursive function. It returns the error of a
  malformed fold, or, at \<open>break value\<close>, the lexer and \<open>whitespacePos\<close>.
\<close>

function valueLoop :: "lexer \<Rightarrow> error + lexer \<times> nat" where
  "valueLoop l =
     (let (r, l1) = next l in
      if r \<noteq> byte CHR '';'' \<and> r \<ge> byte CHR ''!'' \<and> r \<le> byte CHR ''~'' then valueLoop l1
      else
        let l2 = backup l1;
            whitespacePos = pos l2
        in case acceptOptionalFws l2 of
             (Some err, l3) \<Rightarrow> Inl err
           | (None, l3) \<Rightarrow>
               let (r', l4) = next l3 in
               if r' = eof \<or> r' = byte CHR '';'' then Inr (l4, whitespacePos)
               else valueLoop l4)"
  by pat_completeness auto
termination
proof (relation "measure (\<lambda>l. length (input l) - pos l)")
  show "wf (measure (\<lambda>l. length (input l) - pos l))" by simp
next
  fix l :: lexer and x r l1
  assume "x = next l" "(r, l1) = x"
    "r \<noteq> byte CHR '';'' \<and> byte CHR ''!'' \<le> r \<and> r \<le> byte CHR ''~''"
  then have n: "next l = (r, l1)" and "r \<noteq> eof" by (auto simp: eof_def byte_def)
  from next_advances [OF this] next_input [of l] n
  show "(l1, l) \<in> measure (\<lambda>l. length (input l) - pos l)" by auto
next
  fix l :: lexer and x r l1 l2 wp e l3 z r' l4
  assume a: "x = next l" "(r, l1) = x" "l2 = backup l1"
    "(e, l3) = acceptOptionalFws l2" "e = None" "z = next l3" "(r', l4) = z"
    "\<not> (r' = eof \<or> r' = byte CHR '';'')"
  from a have n: "next l = (r, l1)" by simp
  from next_backup [OF n] a have l2: "input l2 = input l" "pos l2 = pos l" by simp_all
  from a have "acceptOptionalFws l2 = (None, l3)" by simp
  from acceptOptionalFws_mono [OF this] l2 have l3: "input l3 = input l" "pos l \<le> pos l3" by simp_all
  from a have n3: "next l3 = (r', l4)" and "r' \<noteq> eof" by simp_all
  from next_advances [OF this] next_input [of l3] n3 l3
  show "(l4, l) \<in> measure (\<lambda>l. length (input l) - pos l)" by auto
qed

declare valueLoop.simps [simp del]


lemma next_mono: "next l = (r, l') \<Longrightarrow> input l' = input l \<and> start l' = start l \<and> pos l \<le> pos l'"
proof (cases "drop (pos l) (input l)")
  case Nil
  assume "next l = (r, l')"
  with Nil show ?thesis by (auto simp: next_Nil)
next
  case (Cons c cs)
  assume "next l = (r, l')"
  with next_Cons [OF Cons] show ?thesis by auto
qed

lemma valueLoop_mono:
  "valueLoop l = Inr (l', wp) \<Longrightarrow> input l' = input l \<and> start l' = start l \<and> pos l \<le> pos l'"
proof (induction l arbitrary: l' wp rule: valueLoop.induct)
  case (1 l)
  obtain r l1 where n: "next l = (r, l1)" by force
  note m1 = next_mono [OF n]
  show ?case
  proof (cases "r \<noteq> byte CHR '';'' \<and> r \<ge> byte CHR ''!'' \<and> r \<le> byte CHR ''~''")
    case True
    with "1.prems" n have "valueLoop l1 = Inr (l', wp)"
      by (subst (asm) valueLoop.simps) simp
    from "1.IH"(1) [OF refl n [symmetric] True this] m1 show ?thesis by simp
  next
    case False
    define l2 where "l2 = backup l1"
    from next_backup [OF n] have l2: "input l2 = input l" "start l2 = start l" "pos l2 = pos l"
      by (simp_all add: l2_def)
    obtain e l3 where f: "acceptOptionalFws l2 = (e, l3)" by force
    obtain r' l4 where n3: "next l3 = (r', l4)" by force
    have unf: "valueLoop l = (case e of Some err \<Rightarrow> Inl err
        | None \<Rightarrow> if r' = eof \<or> r' = byte CHR '';'' then Inr (l4, pos l2) else valueLoop l4)"
      by (subst valueLoop.simps, simp only: n prod.case if_not_P [OF False] Let_def)
        (simp add: f [unfolded l2_def] n3 l2_def split: option.splits)
    from "1.prems" have e: "e = None"
      unfolding unf by (simp split: option.splits)
    from "1.prems" have res: "(if r' = eof \<or> r' = byte CHR '';'' then Inr (l4, pos l2) else valueLoop l4) = Inr (l', wp)"
      unfolding unf e by simp
    note m3 = acceptOptionalFws_mono [OF f [unfolded e]]
    note m4 = next_mono [OF n3]
    show ?thesis
    proof (cases "r' = eof \<or> r' = byte CHR '';''")
      case True
      with res m3 m4 l2 show ?thesis by auto
    next
      case stop: False
      with res have "valueLoop l4 = Inr (l', wp)" by simp
      from "1.IH"(2) [OF refl n [symmetric] False l2_def refl f [symmetric] e refl n3 [symmetric] stop this]
        m3 m4 l2 show ?thesis by simp
    qed
  qed
qed

lemma skipOptionalFws_mono:
  assumes "skipOptionalFws l = (None, l')"
  shows "input l' = input l" "pos l \<le> pos l'" "start l' = pos l'"
proof -
  obtain e l1 where f: "acceptOptionalFws l = (e, l1)" by force
  with assms have e: "e = None" and l': "l' = ignore l1"
    by (auto simp: skipOptionalFws_def split: option.splits)
  from acceptOptionalFws_mono [OF f [unfolded e]] l'
  show "input l' = input l" "pos l \<le> pos l'" "start l' = pos l'"
    by (simp_all add: ignore_def)
qed

text \<open>
  The outer \<open>for\<close> of \<open>NewTagValue\<close>, with the lexer and the items collected so far
  as its state. \<open>var item Item\<close> starts each round as the zero value.
\<close>

function NewTagValue_loop :: "lexer \<Rightarrow> Item list \<Rightarrow> error + Item list" where
  "NewTagValue_loop l items =
     (case skipOptionalFws l of
        (Some err, l1) \<Rightarrow> Inl err
      | (None, l1) \<Rightarrow>
          let (r, l2) = next l1 in
          if r = eof then Inr items
          else if (r < byte CHR ''a'' \<or> r > byte CHR ''z'') \<and> (r < byte CHR ''A'' \<or> r > byte CHR ''Z'')
          then Inl (ParseError_error \<lparr>Message = ''expecting alpha character in tag'', Pos = pos l2\<rparr>)
          else
            let l3 = acceptTagRun l2;
                item = \<lparr>Tag = slice (input l3) (start l3) (pos l3), Value = [],
                        TagPos = start l3, ValuePos = 0\<rparr>
            in case skipOptionalFws l3 of
                 (Some err, l4) \<Rightarrow> Inl err
               | (None, l4) \<Rightarrow>
                   let (r, l5) = next l4 in
                   if r \<noteq> byte CHR ''='' 
                   then Inl (ParseError_error \<lparr>Message = ''expecting '' @ [CHR 0x27, CHR ''='', CHR 0x27], Pos = pos l5\<rparr>)
                   else
                     case skipOptionalFws l5 of
                       (Some err, l6) \<Rightarrow> Inl err
                     | (None, l6) \<Rightarrow>
                         (case valueLoop l6 of
                            Inl err \<Rightarrow> Inl err
                          | Inr (l7, whitespacePos) \<Rightarrow>
                              NewTagValue_loop l7
                                (items @ [item\<lparr>Value := slice (input l7) (start l7) whitespacePos,
                                                 ValuePos := start l7\<rparr>])))"
  by pat_completeness auto
termination
proof (relation "measure (\<lambda>(l, items). length (input l) - pos l)")
  show "wf (measure (\<lambda>(l, items). length (input l) - pos l))" by simp
next
  fix l :: lexer and items :: "Item list" and e1 l1 x r l2 l3 item e4 l4 y r5 l5 e6 l6 b l7 wp
  assume a: "(e1, l1) = skipOptionalFws l" "e1 = None" "x = next l1" "(r, l2) = x" "r \<noteq> eof"
    "l3 = acceptTagRun l2" "(e4, l4) = skipOptionalFws l3" "e4 = None"
    "y = next l4" "(r5, l5) = y" "(e6, l6) = skipOptionalFws l5" "e6 = None"
    "valueLoop l6 = Inr b" "(l7, wp) = b"
  from a have "skipOptionalFws l = (None, l1)" by simp
  note s1 = skipOptionalFws_mono [OF this]
  from a have n: "next l1 = (r, l2)" by simp
  note s2 = next_advances [OF n \<open>r \<noteq> eof\<close>] next_mono [OF n]
  have s3: "input l3 = input l2" "pos l2 \<le> pos l3"
    using a by (simp_all add: acceptTagRun_def acceptRun_pos)
  from a have "skipOptionalFws l3 = (None, l4)" by simp
  note s4 = skipOptionalFws_mono [OF this]
  from a have "next l4 = (r5, l5)" by simp
  note s5 = next_mono [OF this]
  from a have "skipOptionalFws l5 = (None, l6)" by simp
  note s6 = skipOptionalFws_mono [OF this]
  from a have "valueLoop l6 = Inr (l7, wp)" by simp
  note s7 = valueLoop_mono [OF this]
  have "input l7 = input l" using s1 s2 s3 s4 s5 s6 s7 by simp
  moreover have "pos l < pos l7" using s1 s2 s3 s4 s5 s6 s7 by linarith
  moreover have "pos l < length (input l)" using s1 s2 by simp
  ultimately show "((l7, items @ [item\<lparr>Value := slice (input l7) (start l7) wp, ValuePos := start l7\<rparr>]), l, items)
           \<in> measure (\<lambda>(l, items). length (input l) - pos l)"
    by simp
qed

declare NewTagValue_loop.simps [simp del]

definition NewTagValue :: "string \<Rightarrow> error + Item list" where
  "NewTagValue inp = NewTagValue_loop \<lparr>input = inp, start = 0, pos = 0, width = 0\<rparr> []"

section \<open>The parser read off the input text\<close>

text \<open>
  The lexer only ever moves its cursor over the input, so what the parser does at an
  offset is a function of the text from that offset on. This section states that
  function on lists and proves that the parser computes it; the properties of the
  parser are then proved on lists.

  \<open>valchar c\<close>: the byte is one the value scan consumes without looking further
  (\<open>r != ';' && r >= '!' && r <= '~'\<close>).
\<close>

definition valchar :: "char \<Rightarrow> bool" where
  "valchar c = (byte c \<noteq> byte CHR '';'' \<and> byte c \<ge> byte CHR ''!'' \<and> byte c \<le> byte CHR ''~'')"

lemma Decode_width_pos: "s \<noteq> [] \<Longrightarrow> 1 \<le> snd (DecodeRuneInString s) \<and> snd (DecodeRuneInString s) \<le> length s"
proof -
  assume "s \<noteq> []"
  then obtain c cs where s: "s = c # cs" by (cases s) auto
  obtain r w where d: "DecodeRuneInString (c # cs) = (r, w)" by force
  from Decode_cases [OF d] show ?thesis by (auto simp: s d)
qed

lemma fws_len_le: "fws_len s = Some n \<Longrightarrow> n \<le> length s"
proof -
  assume a: "fws_len s = Some n"
  have s: "s = takeWhile wsp s @ dropWhile wsp s" by simp
  show ?thesis
  proof (cases "take 2 (dropWhile wsp s) = [CHR 0x0D, CHR 0x0A]")
    case False
    with a have "n = length (takeWhile wsp s)" by (simp add: fws_len_def)
    then show ?thesis by (simp add: length_takeWhile_le)
  next
    case True
    with a have n: "n = length (takeWhile wsp s) + 2 + length (takeWhile wsp (drop 2 (dropWhile wsp s)))"
      by (auto simp: fws_len_def Let_def split: if_splits)
    have "2 \<le> length (dropWhile wsp s)"
      using arg_cong [OF True, of length] by simp
    moreover have "length (takeWhile wsp (drop 2 (dropWhile wsp s))) \<le> length (dropWhile wsp s) - 2"
      using length_takeWhile_le [of wsp "drop 2 (dropWhile wsp s)"] by simp
    moreover have "length s = length (takeWhile wsp s) + length (dropWhile wsp s)"
      by (metis takeWhile_dropWhile_id length_append)
    ultimately show ?thesis using n by linarith
  qed
qed

text \<open>
  The value scan on the text \<open>s\<close> that starts at the value: \<open>value_len s = Some (v, k)\<close>
  when the scan stops with \<open>whitespacePos\<close> at offset \<open>v\<close> and the cursor at offset
  \<open>k\<close> of \<open>s\<close>, and \<open>None\<close> when it meets a malformed fold.
\<close>

function value_len :: "string \<Rightarrow> (nat \<times> nat) option" where
  "value_len s =
     (if s \<noteq> [] \<and> valchar (hd s) then
        map_option (\<lambda>(v, k). (Suc v, Suc k)) (value_len (tl s))
      else
        (case fws_len s of
           None \<Rightarrow> None
         | Some n \<Rightarrow>
             if drop n s = [] then Some (0, n)
             else if hd (drop n s) = CHR '';'' then Some (0, n + 1)
             else
               let w = snd (DecodeRuneInString (drop n s)) in
               map_option (\<lambda>(v, k). (n + w + v, n + w + k)) (value_len (drop (n + w) s))))"
  by pat_completeness auto
termination
proof (relation "measure length")
  show "wf (measure length)" by simp
next
  fix s :: string
  assume "s \<noteq> [] \<and> valchar (hd s)"
  then show "(tl s, s) \<in> measure length" by (cases s) auto
next
  fix s :: string and n w
  assume a: "fws_len s = Some n" "drop n s \<noteq> []" "w = snd (DecodeRuneInString (drop n s))"
  from Decode_width_pos [OF a(2)] a(3) have "1 \<le> w" by simp
  moreover from a(2) have "n < length s" by simp
  ultimately show "(drop (n + w) s, s) \<in> measure length" by simp
qed

declare value_len.simps [simp del]


lemma next_decode:
  assumes "drop (pos l) (input l) \<noteq> []"
  shows "next l = (fst (DecodeRuneInString (drop (pos l) (input l))),
           l\<lparr>pos := pos l + snd (DecodeRuneInString (drop (pos l) (input l))),
             width := snd (DecodeRuneInString (drop (pos l) (input l)))\<rparr>)"
proof -
  from assms have "pos l < length (input l)" by simp
  then show ?thesis by (simp add: next_def slice_from_def split: prod.splits)
qed

lemma next_valchar:
  assumes "next l = (r, l1)"
  shows "(r \<noteq> byte CHR '';'' \<and> r \<ge> byte CHR ''!'' \<and> r \<le> byte CHR ''~'')
     \<longleftrightarrow> (drop (pos l) (input l) \<noteq> [] \<and> valchar (hd (drop (pos l) (input l))))"
proof (cases "drop (pos l) (input l)")
  case Nil
  with assms show ?thesis by (auto simp: next_Nil eof_def byte_def)
next
  case (Cons c cs)
  from next_Cons [OF Cons] assms show ?thesis
    by (auto simp: Cons valchar_def byte_def)
qed

lemma next_valchar_pos:
  assumes "next l = (r, l1)" and "drop (pos l) (input l) \<noteq> []"
    and "valchar (hd (drop (pos l) (input l)))"
  shows "pos l1 = pos l + 1 \<and> input l1 = input l \<and> start l1 = start l"
proof -
  from assms(2) obtain c cs where Cons: "drop (pos l) (input l) = c # cs"
    by (cases "drop (pos l) (input l)") auto
  with assms(3) have "byte c < 0x80" by (simp add: valchar_def byte_def)
  from next_ascii [OF Cons this] assms(1) show ?thesis by auto
qed

lemma byte_semicolon: "byte c = 59 \<longleftrightarrow> c = CHR '';''"
proof -
  have "byte CHR '';'' = 59" by (simp add: byte_def)
  with byte_inj [of c "CHR '';''"] show ?thesis by simp
qed

definition fwsError :: error where
  "fwsError = errorString ''malformed folding whitespace''"

lemma valueLoop_eq:
  "case value_len (drop (pos l) (input l)) of
     None \<Rightarrow> valueLoop l = Inl fwsError
   | Some (v, k) \<Rightarrow> \<exists>l'. valueLoop l = Inr (l', pos l + v) \<and> input l' = input l
                        \<and> start l' = start l \<and> pos l' = pos l + k"
proof (induction l rule: valueLoop.induct)
  case (1 l)
  define s where "s = drop (pos l) (input l)"
  obtain r l1 where n: "next l = (r, l1)" by force
  note m1 = next_mono [OF n]
  show ?case
  proof (cases "r \<noteq> byte CHR '';'' \<and> r \<ge> byte CHR ''!'' \<and> r \<le> byte CHR ''~''")
    case True
    with next_valchar [OF n] have v: "s \<noteq> []" "valchar (hd s)" by (simp_all add: s_def)
    from next_valchar_pos [OF n v [unfolded s_def]]
    have l1: "pos l1 = pos l + 1" "input l1 = input l" "start l1 = start l" by simp_all
    have d1: "drop (pos l1) (input l1) = tl s"
      by (simp add: l1 s_def drop_Suc tl_drop)
    have unf: "valueLoop l = valueLoop l1"
      using n True by (subst valueLoop.simps) simp
    have vs: "value_len s = map_option (\<lambda>(v, k). (Suc v, Suc k)) (value_len (tl s))"
      using v by (subst value_len.simps) simp
    from "1.IH"(1) [OF refl n [symmetric] True] show ?thesis
      unfolding s_def [symmetric] d1 vs unf
      by (auto simp: l1 split: option.splits)
  next
    case False
    with next_valchar [OF n] have nv: "\<not> (s \<noteq> [] \<and> valchar (hd s))" by (simp add: s_def)
    define l2 where "l2 = backup l1"
    from next_backup [OF n] have l2: "input l2 = input l" "start l2 = start l" "pos l2 = pos l"
      by (simp_all add: l2_def)
    obtain e l3 where f: "acceptOptionalFws l2 = (e, l3)" by force
    obtain r' l4 where n3: "next l3 = (r', l4)" by force
    have unf: "valueLoop l = (case e of Some err \<Rightarrow> Inl err
        | None \<Rightarrow> if r' = eof \<or> r' = byte CHR '';'' then Inr (l4, pos l2) else valueLoop l4)"
      by (subst valueLoop.simps, simp only: n prod.case if_not_P [OF False] Let_def)
        (simp add: f [unfolded l2_def] n3 l2_def split: option.splits)
    have d2: "drop (pos l2) (input l2) = s" by (simp add: l2 s_def)
    show ?thesis
    proof (cases "fws_len s")
      case None
      with acceptOptionalFws_eq(3) [of l2] f d2 have "e = Some fwsError"
        by (simp add: fwsError_def)
      moreover from None nv have "value_len s = None"
        by (subst value_len.simps) auto
      ultimately show ?thesis unfolding s_def [symmetric] unf by simp
    next
      case (Some n')
      with acceptOptionalFws_eq(4) [of l2 n'] f d2 have e: "e = None" and p3: "pos l3 = pos l + n'"
        by (simp_all add: l2)
      from acceptOptionalFws_eq(1,2) [of l2] f l2 have l3: "input l3 = input l" "start l3 = start l"
        by simp_all
      have d3: "drop (pos l3) (input l3) = drop n' s"
        by (simp add: l3 p3 s_def add.commute)
      show ?thesis
      proof (cases "drop n' s = []")
        case True
        with n3 d3 have "r' = eof" "l4 = l3\<lparr>width := 0\<rparr>" by (simp_all add: next_Nil)
        moreover from Some nv True have "value_len s = Some (0, n')"
          by (subst value_len.simps) auto
        ultimately show ?thesis unfolding s_def [symmetric] unf e
          by (simp add: l2 l3 p3)
      next
        case ne: False
        then obtain c' cs' where Cons: "drop (pos l3) (input l3) = c' # cs'"
          by (cases "drop n' s") (auto simp: d3)
        have eofn: "r' \<noteq> eof"
          using next_Cons [OF Cons] n3 byte_range(1) [of c'] by (auto simp: eof_def)
        have b59: "byte CHR '';'' = 59" by (simp add: byte_def)
        have semi: "r' = byte CHR '';'' \<longleftrightarrow> hd (drop n' s) = CHR '';''"
          using next_Cons [OF Cons] n3 Cons d3 by (auto simp: b59 byte_semicolon)
        have ne3: "drop (pos l3) (input l3) \<noteq> []" using Cons by simp
        from next_decode [OF ne3] n3
        have "l4 = l3\<lparr>pos := pos l3 + snd (DecodeRuneInString (drop (pos l3) (input l3))),
             width := snd (DecodeRuneInString (drop (pos l3) (input l3)))\<rparr>" by simp
        then have l4: "input l4 = input l" "start l4 = start l"
          "pos l4 = pos l + n' + snd (DecodeRuneInString (drop n' s))"
          unfolding d3 by (simp_all add: l3 p3)
        show ?thesis
        proof (cases "hd (drop n' s) = CHR '';''")
          case True
          with Cons d3 have "byte c' < 0x80" by (simp add: byte_def)
          from next_ascii [OF Cons this] n3 have "pos l4 = pos l3 + 1" by auto
          moreover from Some nv ne True have "value_len s = Some (0, n' + 1)"
            by (subst value_len.simps) auto
          ultimately show ?thesis unfolding s_def [symmetric] unf e
            using semi True by (simp add: l2 l4 p3)
        next
          case nsemi: False
          define w where "w = snd (DecodeRuneInString (drop n' s))"
          have stop: "\<not> (r' = eof \<or> r' = byte CHR '';'')" using eofn semi nsemi by simp
          have d4: "drop (pos l4) (input l4) = drop (n' + w) s"
            by (simp add: l4 s_def w_def ac_simps)
          have vs: "value_len s = map_option (\<lambda>(v, k). (n' + w + v, n' + w + k)) (value_len (drop (n' + w) s))"
            using Some nv ne nsemi by (subst value_len.simps) (auto simp: w_def Let_def)
          from "1.IH"(2) [OF refl n [symmetric] False l2_def refl f [symmetric] e refl n3 [symmetric] stop]
          show ?thesis
            unfolding s_def [symmetric] d4 vs unf e using stop
            by (auto simp: l2 l4 w_def split: option.splits)
        qed
      qed
    qed
  qed
qed

text \<open>\<open>next\<close> on the remaining text: the rune and its width, \<open>(eof, 0)\<close> at the end.\<close>

definition next_rune :: "string \<Rightarrow> rune \<times> nat" where
  "next_rune s = (if s = [] then (eof, 0) else DecodeRuneInString s)"

lemma next_eq:
  "next l = (fst (next_rune (drop (pos l) (input l))),
             l\<lparr>pos := pos l + snd (next_rune (drop (pos l) (input l))),
               width := snd (next_rune (drop (pos l) (input l)))\<rparr>)"
proof (cases "drop (pos l) (input l) = []")
  case True
  then show ?thesis by (simp add: next_Nil next_rune_def)
next
  case False
  from next_decode [OF this] False show ?thesis by (simp add: next_rune_def)
qed

lemma next_rune_eof: "fst (next_rune s) = eof \<longleftrightarrow> s = []"
proof (cases s)
  case Nil
  then show ?thesis by (simp add: next_rune_def)
next
  case (Cons c cs)
  obtain r w where d: "DecodeRuneInString (c # cs) = (r, w)" by force
  from Decode_cases [OF d] byte_range(1) [of c] show ?thesis
    by (auto simp: Cons next_rune_def d eof_def)
qed

lemma next_rune_width: "s \<noteq> [] \<Longrightarrow> 1 \<le> snd (next_rune s) \<and> snd (next_rune s) \<le> length s"
  using Decode_width_pos [of s] by (simp add: next_rune_def)

lemma skipOptionalFws_eq:
  "input (snd (skipOptionalFws l)) = input l"
  "fws_len (drop (pos l) (input l)) = None \<Longrightarrow> fst (skipOptionalFws l) = Some fwsError"
  "fws_len (drop (pos l) (input l)) = Some n \<Longrightarrow>
     fst (skipOptionalFws l) = None \<and> pos (snd (skipOptionalFws l)) = pos l + n
       \<and> start (snd (skipOptionalFws l)) = pos l + n"
proof -
  obtain e l1 where f: "acceptOptionalFws l = (e, l1)" by force
  from acceptOptionalFws_eq(1) [of l] f show "input (snd (skipOptionalFws l)) = input l"
    by (cases e) (simp_all add: skipOptionalFws_def ignore_def)
  show "fst (skipOptionalFws l) = Some fwsError" if "fws_len (drop (pos l) (input l)) = None"
    using acceptOptionalFws_eq(3) [OF that] f
    by (simp add: skipOptionalFws_def fwsError_def)
  show "fst (skipOptionalFws l) = None \<and> pos (snd (skipOptionalFws l)) = pos l + n
       \<and> start (snd (skipOptionalFws l)) = pos l + n"
    if "fws_len (drop (pos l) (input l)) = Some n"
    using acceptOptionalFws_eq(4) [OF that] f
    by (simp add: skipOptionalFws_def ignore_def)
qed

text \<open>
  One round of the outer loop of \<open>NewTagValue\<close> at offset \<open>p\<close> of the input: it fails,
  or finds the end of the input, or yields an item and the offset of the next round.
\<close>

definition tagchar :: "char \<Rightarrow> bool" where
  "tagchar = inset ''abcdefghijklmnopqrstuvwxyzABCDEFGHIJKLMNOPQRSTUVWXYZ0123456789_''"

definition isAlpha :: "rune \<Rightarrow> bool" where
  "isAlpha r = (\<not> ((r < byte CHR ''a'' \<or> r > byte CHR ''z'') \<and> (r < byte CHR ''A'' \<or> r > byte CHR ''Z'')))"

datatype step = Fail error | Done | More Item nat

definition tag_spec :: "string \<Rightarrow> nat \<Rightarrow> step" where
  "tag_spec inp p =
     (case fws_len (drop p inp) of
        None \<Rightarrow> Fail fwsError
      | Some n1 \<Rightarrow>
          let p1 = p + n1; (r, w) = next_rune (drop p1 inp) in
          if r = eof then Done
          else if \<not> isAlpha r
          then Fail (ParseError_error \<lparr>ParseError.Message = ''expecting alpha character in tag'', Pos = p1 + w\<rparr>)
          else
            let p3 = p1 + w + length (takeWhile tagchar (drop (p1 + w) inp)) in
            (case fws_len (drop p3 inp) of
               None \<Rightarrow> Fail fwsError
             | Some n4 \<Rightarrow>
                 let p4 = p3 + n4; (r5, w5) = next_rune (drop p4 inp) in
                 if r5 \<noteq> byte CHR ''=''
                 then Fail (ParseError_error \<lparr>ParseError.Message = ''expecting '' @ [CHR 0x27, CHR ''='', CHR 0x27], Pos = p4 + w5\<rparr>)
                 else
                   (case fws_len (drop (p4 + w5) inp) of
                      None \<Rightarrow> Fail fwsError
                    | Some n6 \<Rightarrow>
                        let p6 = p4 + w5 + n6 in
                        (case value_len (drop p6 inp) of
                           None \<Rightarrow> Fail fwsError
                         | Some (v, k) \<Rightarrow>
                             More \<lparr>Tag = slice inp p1 p3, Value = slice inp p6 (p6 + v),
                                   TagPos = p1, ValuePos = p6\<rparr> (p6 + k)))))"

lemma tag_spec_More:
  assumes "tag_spec inp p = More it p'"
  shows "p < p' \<and> p < length inp"
proof -
  from assms obtain n1 where n1: "fws_len (drop p inp) = Some n1"
    by (auto simp: tag_spec_def split: option.splits)
  obtain r w where nr: "next_rune (drop (p + n1) inp) = (r, w)" by force
  from assms n1 nr have r: "r \<noteq> eof"
    by (auto simp: tag_spec_def Let_def split: if_splits)
  with next_rune_eof [of "drop (p + n1) inp"] nr have ne: "drop (p + n1) inp \<noteq> []" by auto
  with next_rune_width [OF ne] nr have w: "1 \<le> w" by simp
  from ne have "p + n1 < length inp" by simp
  moreover from assms n1 nr r w have "p + n1 + w \<le> p'"
    by (auto simp: tag_spec_def Let_def split: if_splits option.splits prod.splits)
  ultimately show ?thesis using w by linarith
qed

function parse_loop :: "string \<Rightarrow> nat \<Rightarrow> Item list \<Rightarrow> error + Item list" where
  "parse_loop inp p items =
     (case tag_spec inp p of
        Fail err \<Rightarrow> Inl err
      | Done \<Rightarrow> Inr items
      | More item p' \<Rightarrow> parse_loop inp p' (items @ [item]))"
  by pat_completeness auto
termination
proof (relation "measure (\<lambda>(inp, p, items). length inp - p)")
  show "wf (measure (\<lambda>(inp, p, items). length inp - p))" by simp
next
  fix inp p and items :: "Item list" and item p'
  assume "tag_spec inp p = More item p'"
  from tag_spec_More [OF this]
  show "((inp, p', items @ [item]), inp, p, items) \<in> measure (\<lambda>(inp, p, items). length inp - p)"
    by auto
qed

declare parse_loop.simps [simp del]


lemma acceptTagRun_eq:
  "input (acceptTagRun l) = input l" "start (acceptTagRun l) = start l"
  "pos (acceptTagRun l) = pos l + length (takeWhile tagchar (drop (pos l) (input l)))"
  by (simp_all add: acceptTagRun_def acceptRun_pos tagchar_def)

lemma NewTagValue_loop_eq:
  "NewTagValue_loop l items = parse_loop (input l) (pos l) items"
proof (induction l items rule: NewTagValue_loop.induct)
  case (1 l items)
  define inp where "inp = input l"
  define p where "p = pos l"
  obtain e1 l1 where s1: "skipOptionalFws l = (e1, l1)" by force
  obtain r l2 where n2: "next l1 = (r, l2)" by force
  define l3 where "l3 = acceptTagRun l2"
  define item where "item = \<lparr>Tag = slice (input l3) (start l3) (pos l3), Value = [],
                        TagPos = start l3, ValuePos = 0\<rparr>"
  obtain e4 l4 where s4: "skipOptionalFws l3 = (e4, l4)" by force
  obtain r5 l5 where n5: "next l4 = (r5, l5)" by force
  obtain e6 l6 where s6: "skipOptionalFws l5 = (e6, l6)" by force
  let ?alpha = isAlpha
  have unf: "NewTagValue_loop l items =
     (case e1 of Some err \<Rightarrow> Inl err
      | None \<Rightarrow>
          if r = eof then Inr items
          else if \<not> ?alpha r
          then Inl (ParseError_error \<lparr>ParseError.Message = ''expecting alpha character in tag'', Pos = pos l2\<rparr>)
          else
            (case e4 of Some err \<Rightarrow> Inl err
             | None \<Rightarrow>
                 if r5 \<noteq> byte CHR ''=''
                 then Inl (ParseError_error \<lparr>ParseError.Message = ''expecting '' @ [CHR 0x27, CHR ''='', CHR 0x27], Pos = pos l5\<rparr>)
                 else
                   (case e6 of Some err \<Rightarrow> Inl err
                    | None \<Rightarrow>
                        (case valueLoop l6 of
                           Inl err \<Rightarrow> Inl err
                         | Inr (l7, whitespacePos) \<Rightarrow>
                             NewTagValue_loop l7
                               (items @ [item\<lparr>Value := slice (input l7) (start l7) whitespacePos,
                                                ValuePos := start l7\<rparr>])))))"
    by (subst NewTagValue_loop.simps)
      (simp add: s1 n2 l3_def [symmetric] item_def [symmetric] s4 n5 s6 Let_def isAlpha_def
        split: option.splits sum.splits)
  have i1: "input l1 = inp"
    using skipOptionalFws_eq(1) [of l] s1 by (simp add: inp_def)
  show ?case
  proof (cases "fws_len (drop p inp)")
    case None
    with skipOptionalFws_eq(2) [of l] s1 have "e1 = Some fwsError" by (simp add: p_def inp_def)
    moreover from None have "tag_spec inp p = Fail fwsError" by (simp add: tag_spec_def)
    ultimately show ?thesis
      unfolding unf inp_def [symmetric] p_def [symmetric] by (subst parse_loop.simps) simp
  next
    case (Some n1)
    define p1 where "p1 = p + n1"
    from skipOptionalFws_eq(3) [of l n1] s1 Some
    have e1: "e1 = None" and l1: "pos l1 = p1" "start l1 = p1"
      by (simp_all add: p_def inp_def p1_def)
    define w where "w = snd (next_rune (drop p1 inp))"
    from next_eq [of l1] n2 have r: "r = fst (next_rune (drop p1 inp))"
      and l2: "input l2 = inp" "start l2 = p1" "pos l2 = p1 + w"
      by (auto simp: l1 i1 w_def)
    have nr: "next_rune (drop p1 inp) = (r, w)" by (simp add: r w_def)
    show ?thesis
    proof (cases "r = eof")
      case True
      with Some nr have "tag_spec inp p = Done" by (simp add: tag_spec_def p1_def)
      with True e1 show ?thesis
        unfolding unf inp_def [symmetric] p_def [symmetric] by (subst parse_loop.simps) simp
    next
      case rne: False
      show ?thesis
      proof (cases "?alpha r")
        case False
        with Some nr rne have "tag_spec inp p = Fail (ParseError_error
            \<lparr>ParseError.Message = ''expecting alpha character in tag'', Pos = p1 + w\<rparr>)"
          by (simp add: tag_spec_def p1_def)
        with False rne e1 l2 show ?thesis
          unfolding unf inp_def [symmetric] p_def [symmetric] by (subst parse_loop.simps) simp
      next
        case al: True
        define p3 where "p3 = p1 + w + length (takeWhile tagchar (drop (p1 + w) inp))"
        from acceptTagRun_eq [of l2]
        have l3: "input l3 = inp" "start l3 = p1" "pos l3 = p3"
          by (simp_all add: l3_def l2 p3_def)
        have item: "item = \<lparr>Tag = slice inp p1 p3, Value = [], TagPos = p1, ValuePos = 0\<rparr>"
          by (simp add: item_def l3)
        have i4: "input l4 = inp"
          using skipOptionalFws_eq(1) [of l3] s4 by (simp add: l3)
        show ?thesis
        proof (cases "fws_len (drop p3 inp)")
          case None
          with skipOptionalFws_eq(2) [of l3] s4 have "e4 = Some fwsError" by (simp add: l3)
          moreover from None Some nr rne al have "tag_spec inp p = Fail fwsError"
            by (simp add: tag_spec_def p1_def [symmetric] p3_def [symmetric])
          ultimately show ?thesis using rne al e1
            unfolding unf inp_def [symmetric] p_def [symmetric] by (subst parse_loop.simps) simp
        next
          case n4: (Some n4)
          define p4 where "p4 = p3 + n4"
          from skipOptionalFws_eq(3) [of l3 n4] s4 n4
          have e4: "e4 = None" and l4: "pos l4 = p4" "start l4 = p4"
            by (simp_all add: l3 p4_def)
          define w5 where "w5 = snd (next_rune (drop p4 inp))"
          from next_eq [of l4] n5 have r5: "r5 = fst (next_rune (drop p4 inp))"
            and l5: "input l5 = inp" "pos l5 = p4 + w5"
            by (auto simp: l4 i4 w5_def)
          have nr5: "next_rune (drop p4 inp) = (r5, w5)" by (simp add: r5 w5_def)
          have i6: "input l6 = inp"
            using skipOptionalFws_eq(1) [of l5] s6 by (simp add: l5)
          show ?thesis
          proof (cases "r5 \<noteq> byte CHR ''=''")
            case True
            with Some nr rne al n4 nr5 have "tag_spec inp p = Fail (ParseError_error
                \<lparr>ParseError.Message = ''expecting '' @ [CHR 0x27, CHR ''='', CHR 0x27], Pos = p4 + w5\<rparr>)"
              by (simp add: tag_spec_def p1_def [symmetric] p3_def [symmetric] p4_def [symmetric])
            with True rne al e1 e4 l5 show ?thesis
              unfolding unf inp_def [symmetric] p_def [symmetric] by (subst parse_loop.simps) simp
          next
            case eq: False
            show ?thesis
            proof (cases "fws_len (drop (p4 + w5) inp)")
              case None
              with skipOptionalFws_eq(2) [of l5] s6 have "e6 = Some fwsError" by (simp add: l5)
              moreover from None Some nr rne al n4 nr5 eq have "tag_spec inp p = Fail fwsError"
                by (simp add: tag_spec_def p1_def [symmetric] p3_def [symmetric] p4_def [symmetric])
              ultimately show ?thesis using rne al e1 e4 eq
                unfolding unf inp_def [symmetric] p_def [symmetric] by (subst parse_loop.simps) simp
            next
              case n6: (Some n6)
              define p6 where "p6 = p4 + w5 + n6"
              from skipOptionalFws_eq(3) [of l5 n6] s6 n6
              have e6: "e6 = None" and l6: "pos l6 = p6" "start l6 = p6"
                by (simp_all add: l5 p6_def)
              show ?thesis
              proof (cases "value_len (drop p6 inp)")
                case None
                with valueLoop_eq [of l6] have "valueLoop l6 = Inl fwsError"
                  by (simp add: l6 i6)
                moreover from None Some nr rne al n4 nr5 eq n6 have "tag_spec inp p = Fail fwsError"
                  by (simp add: tag_spec_def p1_def [symmetric] p3_def [symmetric] p4_def [symmetric]
                      p6_def [symmetric])
                ultimately show ?thesis using rne al e1 e4 eq e6
                  unfolding unf inp_def [symmetric] p_def [symmetric] by (subst parse_loop.simps) simp
              next
                case (Some vk)
                obtain v k where vk: "vk = (v, k)" by force
                with Some valueLoop_eq [of l6] obtain l7 where
                  vl: "valueLoop l6 = Inr (l7, p6 + v)" and
                  l7: "input l7 = inp" "start l7 = p6" "pos l7 = p6 + k"
                  by (auto simp: l6 i6)
                define it where "it = \<lparr>Tag = slice inp p1 p3, Value = slice inp p6 (p6 + v),
                    TagPos = p1, ValuePos = p6\<rparr>"
                from Some vk \<open>fws_len (drop p inp) = Some n1\<close> nr rne al n4 nr5 eq n6
                have ts: "tag_spec inp p = More it (p6 + k)"
                  by (simp add: tag_spec_def p1_def [symmetric] p3_def [symmetric] p4_def [symmetric]
                      p6_def [symmetric] it_def)
                have al': "\<not> ((r < byte CHR ''a'' \<or> byte CHR ''z'' < r) \<and> (r < byte CHR ''A'' \<or> byte CHR ''Z'' < r))"
                  using al by (simp add: isAlpha_def)
                have eq': "\<not> r5 \<noteq> byte CHR ''=''" using eq by simp
                have "NewTagValue_loop l items =
                    NewTagValue_loop l7 (items @ [item\<lparr>Value := slice (input l7) (start l7) (p6 + v),
                                                ValuePos := start l7\<rparr>])"
                  unfolding unf using rne al e1 e4 eq e6 vl by simp
                also have "\<dots> = parse_loop (input l7) (pos l7)
                    (items @ [item\<lparr>Value := slice (input l7) (start l7) (p6 + v), ValuePos := start l7\<rparr>])"
                  by (rule "1.IH" [OF s1 [symmetric] e1 refl n2 [symmetric] rne al' l3_def item_def
                        s4 [symmetric] e4 refl n5 [symmetric] eq' s6 [symmetric] e6 vl refl])
                also have "\<dots> = parse_loop inp (p6 + k) (items @ [it])"
                  by (simp add: l7 item it_def)
                also have "\<dots> = parse_loop inp p items"
                  using ts by (subst (2) parse_loop.simps) simp
                finally show ?thesis by (simp add: inp_def p_def)
              qed
            qed
          qed
        qed
      qed
    qed
  qed
qed

lemma NewTagValue_eq: "NewTagValue inp = parse_loop inp 0 []"
  by (simp add: NewTagValue_def NewTagValue_loop_eq)

section \<open>Where the parser looks for folding whitespace\<close>

text \<open>
  \<open>NewTagValue\<close> calls \<open>acceptOptionalFws\<close> at four places: through
  \<open>skipOptionalFws\<close> at the start of a round, after the tag name and after \<open>=\<close>, and
  directly in the value loop, each time \<open>next\<close> returns a rune that is no value
  character. The functions of this section walk through the two loops as the parser
  does and collect the cursor \<open>l.pos\<close> at each of these calls, in the order of the
  calls, up to the point where the parser returns.

  The value loop: a value character is passed over; at any other rune the loop backs
  up and calls \<open>acceptOptionalFws\<close> there. The rune that the second \<open>next\<close> reads
  after that call is consumed without a call of its own.
\<close>

function valueLoop_calls :: "lexer \<Rightarrow> nat list" where
  "valueLoop_calls l =
     (let (r, l1) = next l in
      if r \<noteq> byte CHR '';'' \<and> r \<ge> byte CHR ''!'' \<and> r \<le> byte CHR ''~'' then valueLoop_calls l1
      else
        let l2 = backup l1 in
        pos l2 #
          (case acceptOptionalFws l2 of
             (Some err, l3) \<Rightarrow> []
           | (None, l3) \<Rightarrow>
               let (r', l4) = next l3 in
               if r' = eof \<or> r' = byte CHR '';'' then []
               else valueLoop_calls l4))"
  by pat_completeness auto
termination
proof (relation "measure (\<lambda>l. length (input l) - pos l)")
  show "wf (measure (\<lambda>l. length (input l) - pos l))" by simp
next
  fix l :: lexer and x r l1
  assume "x = next l" "(r, l1) = x"
    "r \<noteq> byte CHR '';'' \<and> byte CHR ''!'' \<le> r \<and> r \<le> byte CHR ''~''"
  then have n: "next l = (r, l1)" and "r \<noteq> eof" by (auto simp: eof_def byte_def)
  from next_advances [OF this] next_input [of l] n
  show "(l1, l) \<in> measure (\<lambda>l. length (input l) - pos l)" by auto
next
  fix l :: lexer and x r l1 l2 e l3 z r' l4
  assume a: "x = next l" "(r, l1) = x" "l2 = backup l1"
    "(e, l3) = acceptOptionalFws l2" "e = None" "z = next l3" "(r', l4) = z"
    "\<not> (r' = eof \<or> r' = byte CHR '';'')"
  from a have n: "next l = (r, l1)" by simp
  from next_backup [OF n] a have l2: "input l2 = input l" "pos l2 = pos l" by simp_all
  from a have "acceptOptionalFws l2 = (None, l3)" by simp
  from acceptOptionalFws_mono [OF this] l2 have l3: "input l3 = input l" "pos l \<le> pos l3" by simp_all
  from a have n3: "next l3 = (r', l4)" and "r' \<noteq> eof" by simp_all
  from next_advances [OF this] next_input [of l3] n3 l3
  show "(l4, l) \<in> measure (\<lambda>l. length (input l) - pos l)" by auto
qed

declare valueLoop_calls.simps [simp del]

text \<open>
  The outer loop: the cursor at the three calls of \<open>skipOptionalFws\<close> of a round, the
  calls of the value loop, and the calls of the rounds that follow.
\<close>

function NewTagValue_calls :: "lexer \<Rightarrow> nat list" where
  "NewTagValue_calls l =
     pos l #
     (case skipOptionalFws l of
        (Some err, l1) \<Rightarrow> []
      | (None, l1) \<Rightarrow>
          let (r, l2) = next l1 in
          if r = eof then []
          else if (r < byte CHR ''a'' \<or> r > byte CHR ''z'') \<and> (r < byte CHR ''A'' \<or> r > byte CHR ''Z'')
          then []
          else
            let l3 = acceptTagRun l2 in
            pos l3 #
            (case skipOptionalFws l3 of
               (Some err, l4) \<Rightarrow> []
             | (None, l4) \<Rightarrow>
                 let (r, l5) = next l4 in
                 if r \<noteq> byte CHR ''='' then []
                 else
                   pos l5 #
                   (case skipOptionalFws l5 of
                      (Some err, l6) \<Rightarrow> []
                    | (None, l6) \<Rightarrow>
                        valueLoop_calls l6 @
                        (case valueLoop l6 of
                           Inl err \<Rightarrow> []
                         | Inr (l7, whitespacePos) \<Rightarrow> NewTagValue_calls l7))))"
  by pat_completeness auto
termination
proof (relation "measure (\<lambda>l. length (input l) - pos l)")
  show "wf (measure (\<lambda>l. length (input l) - pos l))" by simp
next
  fix l :: lexer and e1 l1 x r l2 l3 e4 l4 y r5 l5 e6 l6 b l7 wp
  assume a: "(e1, l1) = skipOptionalFws l" "e1 = None" "x = next l1" "(r, l2) = x" "r \<noteq> eof"
    "l3 = acceptTagRun l2" "(e4, l4) = skipOptionalFws l3" "e4 = None"
    "y = next l4" "(r5, l5) = y" "(e6, l6) = skipOptionalFws l5" "e6 = None"
    "valueLoop l6 = Inr b" "(l7, wp) = b"
  from a have "skipOptionalFws l = (None, l1)" by simp
  note s1 = skipOptionalFws_mono [OF this]
  from a have n: "next l1 = (r, l2)" by simp
  note s2 = next_advances [OF n \<open>r \<noteq> eof\<close>] next_mono [OF n]
  have s3: "input l3 = input l2" "pos l2 \<le> pos l3"
    using a by (simp_all add: acceptTagRun_def acceptRun_pos)
  from a have "skipOptionalFws l3 = (None, l4)" by simp
  note s4 = skipOptionalFws_mono [OF this]
  from a have "next l4 = (r5, l5)" by simp
  note s5 = next_mono [OF this]
  from a have "skipOptionalFws l5 = (None, l6)" by simp
  note s6 = skipOptionalFws_mono [OF this]
  from a have "valueLoop l6 = Inr (l7, wp)" by simp
  note s7 = valueLoop_mono [OF this]
  have "input l7 = input l" using s1 s2 s3 s4 s5 s6 s7 by simp
  moreover have "pos l < pos l7" using s1 s2 s3 s4 s5 s6 s7 by linarith
  moreover have "pos l < length (input l)" using s1 s2 by simp
  ultimately show "(l7, l) \<in> measure (\<lambda>l. length (input l) - pos l)"
    by simp
qed

declare NewTagValue_calls.simps [simp del]

text \<open>The calls on the whole input: \<open>NewTagValue\<close> starts its lexer at offset 0.\<close>

definition fwsCalls :: "string \<Rightarrow> nat list" where
  "fwsCalls inp = NewTagValue_calls \<lparr>input = inp, start = 0, pos = 0, width = 0\<rparr>"

text \<open>
  \<open>malformedFold s\<close>: the text \<open>s\<close> is a run of spaces and tabs followed by a CRLF that
  no space or tab follows. This is the text on which \<open>acceptOptionalFws\<close> fails
  (\<open>malformedFold_iff\<close>).
\<close>

definition malformedFold :: "string \<Rightarrow> bool" where
  "malformedFold s =
     (let t = dropWhile wsp s in
      HasPrefix t [CHR 0x0D, CHR 0x0A] \<and> (drop 2 t = [] \<or> \<not> wsp (hd (drop 2 t))))"


lemma takeWhile_Nil_hd: "takeWhile q x = [] \<longleftrightarrow> x = [] \<or> \<not> q (hd x)"
  by (cases x) auto

lemma malformedFold_iff: "malformedFold s \<longleftrightarrow> fws_len s = None"
  by (simp add: malformedFold_def fws_len_def Let_def HasPrefix_CRLF takeWhile_Nil_hd)

lemma valueLoop_Inl: "valueLoop l = Inl e \<Longrightarrow> e = fwsError"
  using valueLoop_eq [of l] by (auto split: option.splits)

lemma valueLoop_calls_iff:
  "valueLoop l = Inl fwsError \<longleftrightarrow> (\<exists>q \<in> set (valueLoop_calls l). fws_len (drop q (input l)) = None)"
proof (induction l rule: valueLoop_calls.induct)
  case (1 l)
  obtain r l1 where n: "next l = (r, l1)" by force
  note m1 = next_mono [OF n]
  show ?case
  proof (cases "r \<noteq> byte CHR '';'' \<and> r \<ge> byte CHR ''!'' \<and> r \<le> byte CHR ''~''")
    case True
    have unf: "valueLoop l = valueLoop l1"
      using n True by (subst valueLoop.simps) simp
    have unc: "valueLoop_calls l = valueLoop_calls l1"
      using n True by (subst valueLoop_calls.simps) simp
    from "1.IH"(1) [OF refl n [symmetric] True] m1 show ?thesis
      unfolding unf unc by simp
  next
    case False
    define l2 where "l2 = backup l1"
    from next_backup [OF n] have l2: "input l2 = input l" "start l2 = start l" "pos l2 = pos l"
      by (simp_all add: l2_def)
    obtain e l3 where f: "acceptOptionalFws l2 = (e, l3)" by force
    obtain r' l4 where n3: "next l3 = (r', l4)" by force
    have unf: "valueLoop l = (case e of Some err \<Rightarrow> Inl err
        | None \<Rightarrow> if r' = eof \<or> r' = byte CHR '';'' then Inr (l4, pos l2) else valueLoop l4)"
      by (subst valueLoop.simps, simp only: n prod.case if_not_P [OF False] Let_def)
        (simp add: f [unfolded l2_def] n3 l2_def split: option.splits)
    have "valueLoop_calls l = pos l2 # (case e of Some err \<Rightarrow> []
        | None \<Rightarrow> if r' = eof \<or> r' = byte CHR '';'' then [] else valueLoop_calls l4)"
      by (subst valueLoop_calls.simps, simp only: n prod.case if_not_P [OF False] Let_def)
        (simp add: f [unfolded l2_def] n3 l2_def split: option.splits)
    then have unc: "valueLoop_calls l = pos l # (case e of Some err \<Rightarrow> []
        | None \<Rightarrow> if r' = eof \<or> r' = byte CHR '';'' then [] else valueLoop_calls l4)"
      by (simp only: l2)
    show ?thesis
    proof (cases "fws_len (drop (pos l) (input l))")
      case None
      with acceptOptionalFws_eq(3) [of l2] f l2 have "e = Some fwsError"
        by (simp add: fwsError_def)
      with None show ?thesis unfolding unf unc by simp
    next
      case (Some n')
      with acceptOptionalFws_eq(4) [of l2 n'] f l2 have e: "e = None" by simp
      have i4: "input l4 = input l"
        using acceptOptionalFws_eq(1) [of l2] f next_mono [OF n3] l2 by simp
      show ?thesis
      proof (cases "r' = eof \<or> r' = byte CHR '';''")
        case True
        with Some show ?thesis unfolding unf unc e by simp
      next
        case stop: False
        from "1.IH"(2) [OF refl n [symmetric] False l2_def f [symmetric] e refl n3 [symmetric] stop]
        show ?thesis unfolding unf unc e using stop Some by (simp add: i4)
      qed
    qed
  qed
qed

lemma skipOptionalFws_None:
  "skipOptionalFws l = (e, l1) \<Longrightarrow>
     (e = Some fwsError \<longleftrightarrow> fws_len (drop (pos l) (input l)) = None)
   \<and> (e = None \<longleftrightarrow> fws_len (drop (pos l) (input l)) \<noteq> None)"
  using skipOptionalFws_eq(2,3) [of l]
  by (cases "fws_len (drop (pos l) (input l))") (auto simp: fwsError_def)

lemma NewTagValue_calls_iff:
  "NewTagValue_loop l items = Inl fwsError
     \<longleftrightarrow> (\<exists>q \<in> set (NewTagValue_calls l). fws_len (drop q (input l)) = None)"
proof (induction l arbitrary: items rule: NewTagValue_calls.induct)
  case (1 l)
  obtain e1 l1 where s1: "skipOptionalFws l = (e1, l1)" by force
  obtain r l2 where n2: "next l1 = (r, l2)" by force
  define l3 where "l3 = acceptTagRun l2"
  define item where "item = \<lparr>Tag = slice (input l3) (start l3) (pos l3), Value = [],
                        TagPos = start l3, ValuePos = 0\<rparr>"
  obtain e4 l4 where s4: "skipOptionalFws l3 = (e4, l4)" by force
  obtain r5 l5 where n5: "next l4 = (r5, l5)" by force
  obtain e6 l6 where s6: "skipOptionalFws l5 = (e6, l6)" by force
  have unf: "NewTagValue_loop l items =
     (case e1 of Some err \<Rightarrow> Inl err
      | None \<Rightarrow>
          if r = eof then Inr items
          else if \<not> isAlpha r
          then Inl (ParseError_error \<lparr>ParseError.Message = ''expecting alpha character in tag'', Pos = pos l2\<rparr>)
          else
            (case e4 of Some err \<Rightarrow> Inl err
             | None \<Rightarrow>
                 if r5 \<noteq> byte CHR ''=''
                 then Inl (ParseError_error \<lparr>ParseError.Message = ''expecting '' @ [CHR 0x27, CHR ''='', CHR 0x27], Pos = pos l5\<rparr>)
                 else
                   (case e6 of Some err \<Rightarrow> Inl err
                    | None \<Rightarrow>
                        (case valueLoop l6 of
                           Inl err \<Rightarrow> Inl err
                         | Inr (l7, whitespacePos) \<Rightarrow>
                             NewTagValue_loop l7
                               (items @ [item\<lparr>Value := slice (input l7) (start l7) whitespacePos,
                                                ValuePos := start l7\<rparr>])))))"
    by (subst NewTagValue_loop.simps)
      (simp add: s1 n2 l3_def [symmetric] item_def [symmetric] s4 n5 s6 Let_def isAlpha_def
        split: option.splits sum.splits)
  have unc: "NewTagValue_calls l =
     pos l #
     (case e1 of Some err \<Rightarrow> []
      | None \<Rightarrow>
          if r = eof then []
          else if \<not> isAlpha r then []
          else
            pos l3 #
            (case e4 of Some err \<Rightarrow> []
             | None \<Rightarrow>
                 if r5 \<noteq> byte CHR ''='' then []
                 else
                   pos l5 #
                   (case e6 of Some err \<Rightarrow> []
                    | None \<Rightarrow>
                        valueLoop_calls l6 @
                        (case valueLoop l6 of
                           Inl err \<Rightarrow> []
                         | Inr (l7, whitespacePos) \<Rightarrow> NewTagValue_calls l7))))"
    by (subst NewTagValue_calls.simps)
      (simp add: s1 n2 l3_def [symmetric] s4 n5 s6 Let_def isAlpha_def
        split: option.splits sum.splits)
  note k1 = skipOptionalFws_None [OF s1]
  note k4 = skipOptionalFws_None [OF s4]
  note k6 = skipOptionalFws_None [OF s6]
  have i1: "input l1 = input l" using skipOptionalFws_eq(1) [of l] s1 by simp
  have i2: "input l2 = input l" using next_mono [OF n2] i1 by simp
  have i3: "input l3 = input l" using acceptTagRun_eq(1) [of l2] i2 by (simp add: l3_def)
  have i4: "input l4 = input l" using skipOptionalFws_eq(1) [of l3] s4 i3 by simp
  have i5: "input l5 = input l" using next_mono [OF n5] i4 by simp
  have i6: "input l6 = input l" using skipOptionalFws_eq(1) [of l5] s6 i5 by simp
  show ?case
  proof (cases e1)
    case (Some err)
    with k1 have "e1 = Some fwsError" "fws_len (drop (pos l) (input l)) = None"
      using skipOptionalFws_eq(3) [of l] s1 by (cases "fws_len (drop (pos l) (input l))"; auto)+
    then show ?thesis unfolding unf unc by simp
  next
    case e1: None
    with k1 have f1: "fws_len (drop (pos l) (input l)) \<noteq> None" by simp
    show ?thesis
    proof (cases "r = eof \<or> \<not> isAlpha r")
      case True
      with f1 show ?thesis unfolding unf unc e1 by (auto simp: fwsError_def)
    next
      case False
      then have rne: "r \<noteq> eof" and al: "isAlpha r" by simp_all
      show ?thesis
      proof (cases e4)
        case (Some err)
        with k4 have "e4 = Some fwsError" "fws_len (drop (pos l3) (input l)) = None"
          using skipOptionalFws_eq(3) [of l3] s4 i3
          by (cases "fws_len (drop (pos l3) (input l3))"; auto)+
        then show ?thesis unfolding unf unc e1 using rne al by simp
      next
        case e4: None
        with k4 i3 have f4: "fws_len (drop (pos l3) (input l)) \<noteq> None" by simp
        show ?thesis
        proof (cases "r5 \<noteq> byte CHR ''=''")
          case True
          with f1 f4 show ?thesis unfolding unf unc e1 e4 using rne al by (auto simp: fwsError_def)
        next
          case eq: False
          show ?thesis
          proof (cases e6)
            case (Some err)
            with k6 have "e6 = Some fwsError" "fws_len (drop (pos l5) (input l)) = None"
              using skipOptionalFws_eq(3) [of l5] s6 i5
              by (cases "fws_len (drop (pos l5) (input l5))"; auto)+
            then show ?thesis unfolding unf unc e1 e4 using rne al eq by simp
          next
            case e6: None
            with k6 i5 have f6: "fws_len (drop (pos l5) (input l)) \<noteq> None" by simp
            show ?thesis
            proof (cases "valueLoop l6")
              case (Inl err)
              from valueLoop_Inl [OF Inl] have err: "err = fwsError" .
              from Inl err valueLoop_calls_iff [of l6] obtain q where
                "q \<in> set (valueLoop_calls l6)" "fws_len (drop q (input l)) = None"
                by (auto simp: i6)
              then show ?thesis unfolding unf unc e1 e4 e6 using rne al eq Inl err by auto
            next
              case (Inr b)
              obtain l7 wp where b: "b = (l7, wp)" by force
              have vl: "valueLoop l6 = Inr (l7, wp)" using Inr b by simp
              have i7: "input l7 = input l" using valueLoop_mono [OF vl] i6 by simp
              have nv: "\<not> (\<exists>q \<in> set (valueLoop_calls l6). fws_len (drop q (input l)) = None)"
                using valueLoop_calls_iff [of l6] vl by (simp add: i6)
              have al': "\<not> ((r < byte CHR ''a'' \<or> byte CHR ''z'' < r) \<and> (r < byte CHR ''A'' \<or> byte CHR ''Z'' < r))"
                using al by (simp add: isAlpha_def)
              have eq': "\<not> r5 \<noteq> byte CHR ''=''" using eq by simp
              note ih = "1.IH" [OF s1 [symmetric] e1 refl n2 [symmetric] rne al' l3_def
                        s4 [symmetric] e4 refl n5 [symmetric] eq' s6 [symmetric] e6 vl refl]
              show ?thesis
                unfolding unf unc e1 e4 e6 using rne al eq vl f1 f4 f6 nv ih
                by (auto simp: i7)
            qed
          qed
        qed
      qed
    qed
  qed
qed

lemma fwsCalls_iff:
  "NewTagValue inp = Inl fwsError \<longleftrightarrow> (\<exists>q \<in> set (fwsCalls inp). malformedFold (drop q inp))"
  by (simp add: NewTagValue_def fwsCalls_def NewTagValue_calls_iff malformedFold_iff)

section \<open>Fields and the field map\<close>

record FieldError =
  Message :: string
  Severity :: string

record Field = Item +
  Index :: nat
  Duplicate :: bool
  Defined :: bool
  Errors :: "FieldError list"

definition zeroField :: Field where
  "zeroField = \<lparr>Tag = [], Value = [], TagPos = 0, ValuePos = 0,
                 Index = 0, Duplicate = False, Defined = False, Errors = []\<rparr>"

text \<open>
  \<open>annotate\<close> takes its message as an \<open>interface{}\<close> and switches on the dynamic type.
  The validator passes a \<open>string\<close> (escaped by \<open>template.HTMLEscapeString\<close>) or a
  \<open>template.HTML\<close> (kept as it is); the other two branches of the switch are not
  reached from this package.
\<close>

datatype message = string_message string | HTML_message string

text \<open>
  \<open>template.HTMLEscapeString\<close>: NUL becomes U+FFFD, and the five characters
  \<open>" ' & < >\<close> become character references.
\<close>

fun HTMLEscapeChar :: "char \<Rightarrow> string" where
  "HTMLEscapeChar c =
     (if c = CHR 0x00 then [CHR 0xEF, CHR 0xBF, CHR 0xBD]
      else if c = CHR 0x22 then ''&#34;''
      else if c = CHR 0x27 then ''&#39;''
      else if c = CHR ''&'' then ''&amp;''
      else if c = CHR ''<'' then ''&lt;''
      else if c = CHR ''>'' then ''&gt;''
      else [c])"

definition HTMLEscapeString :: "string \<Rightarrow> string" where
  "HTMLEscapeString s = concat (map HTMLEscapeChar s)"

definition annotate :: "Field \<Rightarrow> string \<Rightarrow> message \<Rightarrow> Field" where
  "annotate f severity message =
     (let anno = (case message of
                    string_message v \<Rightarrow> HTMLEscapeString v
                  | HTML_message v \<Rightarrow> v)
      in f\<lparr>Errors := Errors f @ [\<lparr>Message = anno, Severity = severity\<rparr>]\<rparr>)"

definition addError :: "Field \<Rightarrow> message \<Rightarrow> Field" where
  "addError f message = annotate f ''danger'' message"

definition addWarning :: "Field \<Rightarrow> message \<Rightarrow> Field" where
  "addWarning f message = annotate f ''warning'' message"

definition addInfo :: "Field \<Rightarrow> message \<Rightarrow> Field" where
  "addInfo f message = annotate f ''info'' message"

text \<open>
  \<open>NewMap\<close>: the \<open>range\<close> loop over the items with its index \<open>i\<close>, updating the map.
\<close>

fun NewMap_loop :: "nat \<Rightarrow> Item list \<Rightarrow> (string \<rightharpoonup> Field) \<Rightarrow> (string \<rightharpoonup> Field)" where
  "NewMap_loop i [] fieldmap = fieldmap"
| "NewMap_loop i (item # items) fieldmap =
     (let seen = (fieldmap (Tag item) \<noteq> None);
          v = \<lparr>Tag = Tag item, Value = Value item, TagPos = TagPos item, ValuePos = ValuePos item,
               Index = i, Duplicate = seen, Defined = True, Errors = []\<rparr>
      in NewMap_loop (Suc i) items (fieldmap(Tag item \<mapsto> v)))"

definition NewMap :: "string \<Rightarrow> error + (string \<rightharpoonup> Field)" where
  "NewMap inp =
     (case NewTagValue inp of
        Inl err \<Rightarrow> Inl err
      | Inr items \<Rightarrow> Inr (NewMap_loop 0 items Map.empty))"

text \<open>A map index expression \<open>m[k]\<close>: the zero value when the key is missing.\<close>

definition index :: "(string \<rightharpoonup> Field) \<Rightarrow> string \<Rightarrow> Field" where
  "index m k = (case m k of None \<Rightarrow> zeroField | Some f \<Rightarrow> f)"

section \<open>The DKIM key validator\<close>

text \<open>
  \<open>strings.Split\<close> for a separator of one byte, the only use the package makes of it
  (\<open>":"\<close>): the pieces between the separators, \<open>[""]\<close> for the empty string.
\<close>

fun Split :: "string \<Rightarrow> char \<Rightarrow> string list" where
  "Split [] sep = [[]]"
| "Split (c # cs) sep =
     (if c = sep then [] # Split cs sep
      else (case Split cs sep of t # ts \<Rightarrow> (c # t) # ts | [] \<Rightarrow> [[c]]))"

text \<open>
  \<open>fmt.Sprintf\<close> for the verb \<open>%s\<close> with string operands: an operand replaces each
  verb, and a verb with no operand left prints as \<open>%!s(MISSING)\<close>.
\<close>

fun Sprintf :: "string \<Rightarrow> string list \<Rightarrow> string" where
  "Sprintf [] args = []"
| "Sprintf [c] args = [c]"
| "Sprintf (c # d # format) args =
     (if c = CHR ''%'' \<and> d = CHR ''s'' then
        (case args of
           [] \<Rightarrow> ''%!s(MISSING)'' @ Sprintf format []
         | a # rest \<Rightarrow> a @ Sprintf format rest)
      else c # Sprintf (d # format) args)"

text \<open>
  A \<open>nil\<close> map reads as the empty map; \<open>Unrecognized\<close> is a map, empty in the zero
  value of \<open>DkimKey\<close>.
\<close>

record DkimKey =
  V :: Field
  G :: Field
  H :: Field
  K :: Field
  N :: Field
  P :: Field
  S :: Field
  T :: Field
  Unrecognized :: "string \<rightharpoonup> Field"
  ParseError :: ParseError

definition zeroDkimKey :: DkimKey where
  "zeroDkimKey =
     \<lparr>V = zeroField, G = zeroField, H = zeroField, K = zeroField, N = zeroField,
      P = zeroField, S = zeroField, T = zeroField, Unrecognized = Map.empty,
      ParseError = \<lparr>ParseError.Message = [], Pos = 0\<rparr>\<rparr>"

definition dq :: string where
  "dq = [CHR 0x22]"

definition sq :: string where
  "sq = [CHR 0x27]"

text \<open>The loop \<open>for _, k := range []string{...} { delete(ret.Unrecognized, k) }\<close>.\<close>

fun delete_keys :: "string list \<Rightarrow> (string \<rightharpoonup> Field) \<Rightarrow> (string \<rightharpoonup> Field)" where
  "delete_keys [] m = m"
| "delete_keys (k # ks) m = delete_keys ks (m(k := None))"

text \<open>The loop over the hash algorithms, \<open>for _, algo := range algos { switch algo {...} }\<close>.\<close>

fun annotateHash :: "string list \<Rightarrow> DkimKey \<Rightarrow> DkimKey" where
  "annotateHash [] ret = ret"
| "annotateHash (algo # algos) ret =
     annotateHash algos
       (if algo = ''sha256'' then ret
        else if algo = ''sha1'' then
          ret\<lparr>H := addWarning (H ret) (HTML_message
            (''SHA1 is <a href='' @ dq @ ''/rfc/8301#section-3.1'' @ dq
               @ ''>not a trusted hash</a>, mail using it may fail DKIM now or in the future''))\<rparr>
        else
          ret\<lparr>H := addWarning (H ret) (string_message
            (Sprintf (sq @ ''%s'' @ sq @ '' isn'' @ sq @ ''t a hash type I recognize'') []))\<rparr>)"

text \<open>
  \<open>NewDkimKey\<close>, block by block as the source runs them on \<open>ret\<close>: the struct literal
  with the loop of deletions, then the blocks headed \<open>Annotate version\<close>,
  \<open>Annotate granularity\<close> and \<open>Annotate hash\<close>. The source ends in the switch on the
  signing algorithm, which has no cases; the function's value is \<open>ret\<close>.
\<close>

definition projectFields :: "(string \<rightharpoonup> Field) \<Rightarrow> DkimKey" where
  "projectFields Fields =
     (let ret = \<lparr>V = index Fields ''v'', G = index Fields ''g'', H = index Fields ''h'',
                 K = index Fields ''k'', N = index Fields ''n'', P = index Fields ''p'',
                 S = index Fields ''s'', T = index Fields ''t'',
                 Unrecognized = Fields, ParseError = \<lparr>ParseError.Message = [], Pos = 0\<rparr>\<rparr>
      in ret\<lparr>Unrecognized :=
               delete_keys [''v'', ''g'', ''h'', ''k'', ''n'', ''p'', ''s'', ''t'']
                 (Unrecognized ret)\<rparr>)"

definition annotateVersion :: "DkimKey \<Rightarrow> DkimKey" where
  "annotateVersion ret =
     (if Defined (V ret) then
        let ret =
              (if Value (V ret) \<noteq> ''DKIM1'' then
                 ret\<lparr>V := addError (V ret) (HTML_message
                   (''The version field must be <a href='' @ dq
                      @ ''/rfc/6376#section-3.6.1'' @ dq @ ''>DKIM1</a>'' @ dq))\<rparr>
               else ret)
        in if Index (V ret) \<noteq> 0 then
             ret\<lparr>V := addError (V ret) (HTML_message
               (''The version tag must be the <a href='' @ dq
                  @ ''https://tools.wordtothewise.com/rfc/6376#section-3.6.1'' @ dq
                  @ ''>first tag in the record</a>''))\<rparr>
           else ret
      else
        ret\<lparr>V := addWarning (V ret) (string_message
          ''DKIM key records should ideally have a version field'')\<rparr>)"

definition annotateGranularity :: "DkimKey \<Rightarrow> DkimKey" where
  "annotateGranularity ret =
     (if Defined (G ret) then
        if Value (G ret) = ''*'' then
          ret\<lparr>V := addWarning (V ret) (HTML_message
            (''The granularity field ('' @ dq @ ''g=*'' @ dq
               @ '') is deprecated in <a href='' @ dq
               @ ''https://tools.wordtothewise.com/rfc/6376#appendix-C.2'' @ dq
               @ ''>RFC 6376</a>''))\<rparr>
        else
          ret\<lparr>V := addError (V ret) (string_message
            (''The granularity field ('' @ dq @ ''g='' @ dq
               @ '') is deprecated in <a href='' @ dq
               @ ''https://tools.wordtothewise.com/rfc/6376#appendix-C.2'' @ dq
               @ ''>RFC 6376</a> and this value will be treated differently by pre-6376 and post-6376 validators''))\<rparr>
      else ret)"

definition annotateHashes :: "DkimKey \<Rightarrow> DkimKey" where
  "annotateHashes ret =
     (if Defined (H ret) then annotateHash (Split (Value (H ret)) CHR '':'') ret
      else ret)"

definition NewDkimKey :: "string \<Rightarrow> DkimKey" where
  "NewDkimKey inp =
     (case NewMap inp of
        Inl err \<Rightarrow>
          (case err of
             ParseError_error v \<Rightarrow> zeroDkimKey\<lparr>ParseError := v\<rparr>
           | _ \<Rightarrow> zeroDkimKey\<lparr>ParseError := \<lparr>ParseError.Message = Error err, Pos = 0\<rparr>\<rparr>)
      | Inr Fields \<Rightarrow>
          annotateHashes (annotateGranularity (annotateVersion (projectFields Fields))))"

section \<open>Facts about the validator\<close>

lemma delete_keys_apply: "delete_keys ks m k = (if k \<in> set ks then None else m k)"
  by (induction ks arbitrary: m) auto

lemma annotateHash_other [simp]:
  "Unrecognized (annotateHash algos ret) = Unrecognized ret"
  "ParseError (annotateHash algos ret) = ParseError ret"
  "V (annotateHash algos ret) = V ret"
  "G (annotateHash algos ret) = G ret"
  by (induction algos arbitrary: ret) simp_all

lemma annotateHashes_other [simp]:
  "Unrecognized (annotateHashes ret) = Unrecognized ret"
  "ParseError (annotateHashes ret) = ParseError ret"
  "V (annotateHashes ret) = V ret"
  "G (annotateHashes ret) = G ret"
  by (simp_all add: annotateHashes_def)

lemma annotateGranularity_other [simp]:
  "Unrecognized (annotateGranularity ret) = Unrecognized ret"
  "ParseError (annotateGranularity ret) = ParseError ret"
  "G (annotateGranularity ret) = G ret"
  "H (annotateGranularity ret) = H ret"
  by (simp_all add: annotateGranularity_def)

lemma annotateVersion_other [simp]:
  "Unrecognized (annotateVersion ret) = Unrecognized ret"
  "ParseError (annotateVersion ret) = ParseError ret"
  "G (annotateVersion ret) = G ret"
  "H (annotateVersion ret) = H ret"
  by (simp_all add: annotateVersion_def Let_def)

lemma NewDkimKey_Inr:
  "NewMap inp = Inr m \<Longrightarrow>
     NewDkimKey inp = annotateHashes (annotateGranularity (annotateVersion (projectFields m)))"
  by (simp add: NewDkimKey_def)

lemma NewMap_Inr:
  "NewTagValue inp = Inr items \<Longrightarrow> NewMap inp = Inr (NewMap_loop 0 items Map.empty)"
  by (simp add: NewMap_def)

lemma tag_spec_Fail:
  assumes "tag_spec inp p = Fail e"
  shows "e = fwsError \<or> (\<exists>q. e = ParseError_error \<lparr>ParseError.Message = ''expecting alpha character in tag'', Pos = q\<rparr>)
     \<or> (\<exists>q. e = ParseError_error \<lparr>ParseError.Message = ''expecting '' @ [CHR 0x27, CHR ''='', CHR 0x27], Pos = q\<rparr>)"
  using assms
  by (auto simp: tag_spec_def Let_def split: option.splits prod.splits if_splits)

lemma parse_loop_Inl:
  "parse_loop inp p items = Inl e \<Longrightarrow> \<exists>q. tag_spec inp q = Fail e"
proof (induction inp p items rule: parse_loop.induct)
  case (1 inp p items)
  from "1.prems" show ?case
    by (subst (asm) parse_loop.simps) (auto split: step.splits dest: "1.IH")
qed

lemma NewTagValue_error_message:
  assumes "NewTagValue inp = Inl e"
  shows "Error e \<noteq> []"
proof -
  from assms parse_loop_Inl [of inp 0 "[]" e] obtain q where "tag_spec inp q = Fail e"
    by (auto simp: NewTagValue_eq)
  from tag_spec_Fail [OF this] show ?thesis by (auto simp: fwsError_def)
qed

lemma NewDkimKey_Inl:
  "NewMap inp = Inl err \<Longrightarrow>
     NewDkimKey inp = zeroDkimKey\<lparr>ParseError :=
       (case err of ParseError_error v \<Rightarrow> v | errorString s \<Rightarrow> \<lparr>ParseError.Message = s, Pos = 0\<rparr>)\<rparr>"
  by (cases err) (simp_all add: NewDkimKey_def)

lemma projectFields_ParseError [simp]:
  "ParseError (projectFields m) = \<lparr>ParseError.Message = [], Pos = 0\<rparr>"
  by (simp add: projectFields_def)

lemma NewMap_loop_append:
  "NewMap_loop i (xs @ ys) m = NewMap_loop (i + length xs) ys (NewMap_loop i xs m)"
  by (induction xs arbitrary: i m) (simp_all add: Let_def)

lemma NewMap_loop_other:
  "t \<notin> Tag ` set xs \<Longrightarrow> NewMap_loop i xs m t = m t"
  by (induction xs arbitrary: i m) (simp_all add: Let_def)

lemma NewMap_loop_dom:
  "dom (NewMap_loop i xs m) = dom m \<union> Tag ` set xs"
  by (induction xs arbitrary: i m) (auto simp: Let_def)

text \<open>\<open>strings.Contains\<close>, to say that a message names a token.\<close>

definition Contains :: "string \<Rightarrow> string \<Rightarrow> bool" where
  "Contains s substr = list_ex (\<lambda>i. take (length substr) (drop i s) = substr) [0..<Suc (length s)]"

section \<open>Facts about folding whitespace and value characters\<close>

lemma wsp_not_CR [simp]: "\<not> wsp (CHR 0x0D)"
  by (simp add: wsp_def)

lemma fws_len_bad_fold:
  assumes "list_all wsp a" and "rest = [] \<or> \<not> wsp (hd rest)"
  shows "fws_len (a @ [CHR 0x0D, CHR 0x0A] @ rest) = None"
proof -
  from assms(1) have t: "takeWhile wsp (a @ CHR 0x0D # CHR 0x0A # rest) = a"
    and d: "dropWhile wsp (a @ CHR 0x0D # CHR 0x0A # rest) = CHR 0x0D # CHR 0x0A # rest"
    by (simp_all add: list_all_iff takeWhile_append2 dropWhile_append2)
  from assms(2) have "takeWhile wsp rest = []" by (cases rest) auto
  then show ?thesis by (simp add: fws_len_def t d)
qed

lemma valchar_not_wsp: "valchar c \<Longrightarrow> \<not> wsp c"
  by (auto simp: valchar_def wsp_def byte_def)

lemma valchar_not_CR: "\<not> valchar (CHR 0x0D)"
  by (simp add: valchar_def byte_def)

lemma fws_len_Nil [simp]: "fws_len [] = Some 0"
  by (simp add: fws_len_def)

lemma fws_len_start:
  assumes "\<not> wsp c" and "c \<noteq> CHR 0x0D \<or> cs = [] \<or> hd cs \<noteq> CHR 0x0A"
  shows "fws_len (c # cs) = Some 0"
  using assms by (cases cs) (auto simp: fws_len_def)

lemma value_len_Nil: "value_len [] = Some (0, 0)"
  by (subst value_len.simps) simp

lemma value_len_valchar:
  "valchar c \<Longrightarrow> value_len (c # cs) = map_option (\<lambda>(v, k). (Suc v, Suc k)) (value_len cs)"
  by (subst value_len.simps) simp

lemma value_len_run:
  "list_all valchar r \<Longrightarrow>
     value_len (r @ s) = map_option (\<lambda>(v, k). (length r + v, length r + k)) (value_len s)"
proof (induction r)
  case Nil
  show ?case by (simp add: option.map_ident case_prod_beta)
next
  case (Cons c r)
  then show ?case
    by (simp add: value_len_valchar option.map_comp comp_def case_prod_beta)
qed

lemma valchar_ascii: "valchar c \<Longrightarrow> byte c < 0x80"
  by (simp add: valchar_def byte_def)

lemma Decode_width_before_ascii:
  assumes "byte d < 0x80"
  shows "snd (DecodeRuneInString (c # d # ds)) = 1"
proof -
  obtain r w where dd: "DecodeRuneInString (c # d # ds) = (r, w)" by force
  from Decode_cases [OF dd] have "w = 1 \<or> (1 \<le> w \<and> high_bytes (take w (c # d # ds)))" by auto
  then have "w = 1"
  proof
    assume "w = 1" then show ?thesis .
  next
    assume a: "1 \<le> w \<and> high_bytes (take w (c # d # ds))"
    show ?thesis
    proof (rule ccontr)
      assume "w \<noteq> 1"
      with a have "2 \<le> w" by simp
      then obtain w' where "w = Suc (Suc w')" by (metis Suc_le_D numeral_2_eq_2 Suc_le_mono)
      with a have "byte d \<ge> 0x80" by (simp add: high_bytes_def)
      with assms show False by simp
    qed
  qed
  with dd show ?thesis by simp
qed

lemma value_len_odd_byte:
  assumes c: "\<not> valchar c" "c \<noteq> CHR '';''"
    and r2: "r2 \<noteq> []" "list_all valchar r2"
  shows "value_len (c # r2) = Some (Suc (length r2), Suc (length r2))"
proof -
  from r2 obtain d ds where r2c: "r2 = d # ds" and d: "valchar d" and ds: "list_all valchar ds"
    by (cases r2) auto
  have dn: "\<not> wsp d" "d \<noteq> CHR 0x0A" "d \<noteq> CHR '';''" "byte d < 0x80" "d \<noteq> CHR 0x0D"
    using d by (auto simp: valchar_def wsp_def byte_def)
  have vds: "value_len ds = Some (length ds, length ds)"
    using value_len_run [OF ds, of "[]"] by (simp add: value_len_Nil)
  have vr2: "value_len r2 = Some (length r2, length r2)"
    using value_len_run [OF r2(2), of "[]"] by (simp add: value_len_Nil)
  have nv: "\<not> (c # r2 \<noteq> [] \<and> valchar (hd (c # r2)))" using c by simp
  show ?thesis
  proof (cases "wsp c")
    case True
    then have f: "fws_len (c # r2) = Some 1"
      using dn by (simp add: fws_len_def r2c Let_def)
    have w: "snd (DecodeRuneInString r2) = 1"
      using dn by (simp add: r2c Decode_ascii)
    show ?thesis
      by (subst value_len.simps, simp only: if_not_P [OF nv] f option.case)
        (simp add: r2c dn w vds Decode_ascii)
  next
    case False
    then have f: "fws_len (c # r2) = Some 0"
      using dn by (intro fws_len_start) (auto simp: r2c)
    have w: "snd (DecodeRuneInString (c # r2)) = 1"
      unfolding r2c by (rule Decode_width_before_ascii [OF dn(4)])
    show ?thesis
      by (subst value_len.simps, simp only: if_not_P [OF nv] f option.case)
        (simp add: c w vr2)
  qed
qed


lemma isAlpha_byte:
  assumes "isAlpha (byte t)"
  shows "byte t < 0x80" "\<not> wsp t" "t \<noteq> CHR 0x0D" "byte t \<noteq> eof"
  using assms by (auto simp: isAlpha_def wsp_def byte_def eof_def)

lemma not_tagchar_eq: "\<not> tagchar CHR ''=''"
  by (simp add: tagchar_def inset_def)

lemma next_rune_ascii: "byte c < 0x80 \<Longrightarrow> next_rune (c # cs) = (byte c, 1)"
  by (simp add: next_rune_def Decode_ascii)

lemma tag_spec_end: "tag_spec inp (length inp) = Done"
  by (simp add: tag_spec_def next_rune_def)

section \<open>The layout of a parsed input\<close>

text \<open>
  \<open>is_ofws ws\<close>: the text \<open>ws\<close> is one optional folding whitespace, all of it consumed
  by \<open>acceptOptionalFws\<close>: a run of spaces and tabs, or such a run, CRLF and a non-empty
  run of spaces and tabs (\<open>is_ofws_cases\<close>).
\<close>

definition is_ofws :: "string \<Rightarrow> bool" where
  "is_ofws ws = (fws_len ws = Some (length ws))"

lemma list_all_takeWhile:
  "list_all q xs \<Longrightarrow> takeWhile q xs = xs \<and> dropWhile q xs = []"
  by (simp add: list_all_iff)

lemma is_ofws_wsp: "list_all wsp ws \<Longrightarrow> is_ofws ws"
  by (simp add: is_ofws_def fws_len_def list_all_takeWhile)

lemma is_ofws_fold:
  assumes "list_all wsp a" "b \<noteq> []" "list_all wsp b"
  shows "is_ofws (a @ CHR 0x0D # CHR 0x0A # b)"
proof -
  from assms(1) have "takeWhile wsp (a @ CHR 0x0D # CHR 0x0A # b) = a"
    "dropWhile wsp (a @ CHR 0x0D # CHR 0x0A # b) = CHR 0x0D # CHR 0x0A # b"
    by (simp_all add: list_all_iff takeWhile_append2 dropWhile_append2)
  with assms(2,3) show ?thesis
    by (simp add: is_ofws_def fws_len_def list_all_takeWhile)
qed

lemma fws_len_take:
  assumes "fws_len s = Some n"
  shows "n \<le> length s" "is_ofws (take n s)" "n < length s \<Longrightarrow> \<not> wsp (s ! n)"
proof -
  define a where "a = takeWhile wsp s"
  define s1 where "s1 = dropWhile wsp s"
  have s: "s = a @ s1" by (simp add: a_def s1_def)
  have wa: "list_all wsp a" by (simp add: a_def list_all_iff) (meson set_takeWhileD)
  have hd1: "s1 \<noteq> [] \<Longrightarrow> \<not> wsp (hd s1)" unfolding s1_def by (rule hd_dropWhile)
  show "n \<le> length s" by (rule fws_len_le [OF assms])
  show "is_ofws (take n s)" "n < length s \<Longrightarrow> \<not> wsp (s ! n)"
  proof -
    have "is_ofws (take n s) \<and> (n < length s \<longrightarrow> \<not> wsp (s ! n))"
    proof (cases "take 2 s1 = [CHR 0x0D, CHR 0x0A]")
      case False
      with assms have n: "n = length a" by (simp add: fws_len_def a_def s1_def)
      have "take n s = a" by (simp add: n s)
      moreover have "n < length s \<Longrightarrow> s ! n = hd s1"
        by (simp add: n s nth_append hd_conv_nth)
      moreover have "n < length s \<Longrightarrow> s1 \<noteq> []" using s n by auto
      ultimately show ?thesis using wa hd1 by (auto simp: is_ofws_wsp)
    next
      case True
      then obtain s2 where s1c: "s1 = CHR 0x0D # CHR 0x0A # s2"
        by (cases s1; cases "tl s1") auto
      define b where "b = takeWhile wsp s2"
      define s3 where "s3 = dropWhile wsp s2"
      have s2: "s2 = b @ s3" by (simp add: b_def s3_def)
      have wb: "list_all wsp b" by (simp add: b_def list_all_iff) (meson set_takeWhileD)
      have hd3: "s3 \<noteq> [] \<Longrightarrow> \<not> wsp (hd s3)" unfolding s3_def by (rule hd_dropWhile)
      from assms True have bne: "b \<noteq> []" and n: "n = length a + 2 + length b"
        by (auto simp: fws_len_def a_def [symmetric] s1_def [symmetric] s1c b_def Let_def split: if_splits)
      have ss: "s = (a @ CHR 0x0D # CHR 0x0A # b) @ s3" by (simp add: s s1c s2)
      have ln: "n = length (a @ CHR 0x0D # CHR 0x0A # b)" by (simp add: n)
      have "take n s = a @ CHR 0x0D # CHR 0x0A # b"
        unfolding ln by (subst ss) (simp del: append_assoc append.simps)
      moreover have "n < length s \<Longrightarrow> s ! n = hd s3 \<and> s3 \<noteq> []"
        unfolding ln by (subst ss, subst nth_append) (auto simp: ss hd_conv_nth)
      ultimately show ?thesis using wa wb bne hd3 by (auto simp: is_ofws_fold)
    qed
    then show "is_ofws (take n s)" "n < length s \<Longrightarrow> \<not> wsp (s ! n)" by simp_all
  qed
qed

lemma is_ofws_cases:
  assumes "is_ofws ws"
  shows "list_all wsp ws \<or> (\<exists>a b. ws = a @ CHR 0x0D # CHR 0x0A # b \<and> list_all wsp a \<and> b \<noteq> [] \<and> list_all wsp b)"
proof -
  define a where "a = takeWhile wsp ws"
  define s1 where "s1 = dropWhile wsp ws"
  have s: "ws = a @ s1" by (simp add: a_def s1_def)
  have wa: "list_all wsp a" by (simp add: a_def list_all_iff) (meson set_takeWhileD)
  from assms have f: "fws_len ws = Some (length ws)" by (simp add: is_ofws_def)
  show ?thesis
  proof (cases "take 2 s1 = [CHR 0x0D, CHR 0x0A]")
    case False
    with f have "length ws = length a" by (simp add: fws_len_def a_def s1_def)
    with s have "ws = a" by (metis append_eq_conv_conj length_append add_diff_cancel_left' length_0_conv append_Nil2)
    with wa show ?thesis by simp
  next
    case True
    then obtain s2 where s1c: "s1 = CHR 0x0D # CHR 0x0A # s2"
      by (cases s1; cases "tl s1") auto
    from f True have bne: "takeWhile wsp s2 \<noteq> []" and n: "length ws = length a + 2 + length (takeWhile wsp s2)"
      by (auto simp: fws_len_def a_def [symmetric] s1_def [symmetric] s1c Let_def split: if_splits)
    from n s s1c have "length (takeWhile wsp s2) = length s2" by simp
    then have "takeWhile wsp s2 = s2"
      by (metis takeWhile_dropWhile_id append_eq_conv_conj length_append add_diff_cancel_left' length_0_conv append_Nil2)
    then have "list_all wsp s2" by (metis list_all_iff set_takeWhileD)
    with bne \<open>takeWhile wsp s2 = s2\<close> wa s s1c show ?thesis by auto
  qed
qed


lemma Decode_last_byte:
  assumes "s \<noteq> []" and "\<not> wsp (hd s)"
  shows "\<not> wsp (s ! (snd (DecodeRuneInString s) - 1))"
proof -
  from assms(1) obtain c cs where s: "s = c # cs" by (cases s) auto
  obtain r w where d: "DecodeRuneInString (c # cs) = (r, w)" by force
  from Decode_cases [OF d] show ?thesis
  proof
    assume "r = byte c \<and> byte c < 0x80 \<and> w = 1"
    with assms(2) show ?thesis by (simp add: s d)
  next
    assume a: "r \<ge> 0x80 \<and> 1 \<le> w \<and> w \<le> length (c # cs) \<and> high_bytes (take w (c # cs))"
    then have "(c # cs) ! (w - 1) \<in> set (take w (c # cs))"
      by (metis One_nat_def Suc_pred diff_less in_set_conv_nth length_take less_Suc_eq_le
          min.absorb2 nth_take zero_less_one less_le_trans)
    with a have "byte ((c # cs) ! (w - 1)) \<ge> 0x80" by (simp add: high_bytes_def)
    then have "\<not> wsp ((c # cs) ! (w - 1))" by (auto simp: wsp_def byte_def)
    then show ?thesis by (simp add: s d)
  qed
qed

lemma value_len_Some:
  assumes "value_len s = Some (v, k)"
  shows "v \<le> k \<and> k \<le> length s \<and> (v = 0 \<or> \<not> wsp (s ! (v - 1)))
     \<and> (\<exists>n. fws_len (drop v s) = Some n
           \<and> ((k = v + n \<and> k = length s)
              \<or> (k = v + n + 1 \<and> v + n < length s \<and> s ! (v + n) = CHR '';'')))"
  using assms
proof (induction s arbitrary: v k rule: value_len.induct)
  case (1 s)
  show ?case
  proof (cases "s \<noteq> [] \<and> valchar (hd s)")
    case True
    then obtain c cs where s: "s = c # cs" and c: "valchar c" by (cases s) auto
    from "1.prems" True obtain v' k' where vk: "value_len (tl s) = Some (v', k')"
      and v: "v = Suc v'" and k: "k = Suc k'"
      by (subst (asm) value_len.simps) auto
    from "1.IH"(1) [OF True vk] obtain n where
      ih: "v' \<le> k'" "k' \<le> length cs" "v' = 0 \<or> \<not> wsp (cs ! (v' - 1))"
        "fws_len (drop v' cs) = Some n"
        "(k' = v' + n \<and> k' = length cs) \<or> (k' = v' + n + 1 \<and> v' + n < length cs \<and> cs ! (v' + n) = CHR '';'')"
      by (auto simp: s)
    have "\<not> wsp (s ! (v - 1))"
    proof (cases v')
      case 0
      with c show ?thesis by (simp add: v s valchar_not_wsp)
    next
      case (Suc m)
      with ih(3) show ?thesis by (simp add: v s)
    qed
    with ih show ?thesis by (auto simp: v k s)
  next
    case False
    from "1.prems" False obtain n where f: "fws_len s = Some n"
      by (subst (asm) value_len.simps) (auto split: option.splits)
    note fl = fws_len_take [OF f]
    show ?thesis
    proof (cases "drop n s = []")
      case True
      with "1.prems" False f have "v = 0" "k = n"
        by (subst (asm) value_len.simps; simp)+
      with True f fl show ?thesis by auto
    next
      case ne: False
      then have nl: "n < length s" by simp
      have hd: "hd (drop n s) = s ! n" using nl by (simp add: hd_drop_conv_nth)
      show ?thesis
      proof (cases "hd (drop n s) = CHR '';''")
        case True
        with "1.prems" False f ne have "v = 0" "k = n + 1"
          by (subst (asm) value_len.simps; simp)+
        with True f nl hd show ?thesis by auto
      next
        case ns: False
        define w where "w = snd (DecodeRuneInString (drop n s))"
        from "1.prems" False f ne ns obtain v' k' where
          vk: "value_len (drop (n + w) s) = Some (v', k')"
          and v: "v = n + w + v'" and k: "k = n + w + k'"
          by (subst (asm) value_len.simps) (auto simp: w_def Let_def)
        from Decode_width_pos [OF ne] have w: "1 \<le> w" "n + w \<le> length s"
          using nl by (auto simp: w_def)
        from "1.IH"(2) [OF False f ne ns w_def vk] obtain m where
          ih: "v' \<le> k'" "k' \<le> length s - (n + w)"
            "v' = 0 \<or> \<not> wsp (drop (n + w) s ! (v' - 1))"
            "fws_len (drop v' (drop (n + w) s)) = Some m"
            "(k' = v' + m \<and> k' = length s - (n + w))
              \<or> (k' = v' + m + 1 \<and> v' + m < length s - (n + w) \<and> drop (n + w) s ! (v' + m) = CHR '';'')"
          by auto
        have last: "\<not> wsp (s ! (v - 1))"
        proof (cases v')
          case 0
          have "\<not> wsp (drop n s ! (w - 1))"
            unfolding w_def using ne fl(3) [OF nl] hd by (intro Decode_last_byte) simp_all
          moreover have "drop n s ! (w - 1) = s ! (n + (w - 1))"
            using w by (intro nth_drop) simp
          ultimately show ?thesis using w by (simp add: v 0)
        next
          case (Suc j)
          with ih(3) have "\<not> wsp (drop (n + w) s ! j)" by simp
          moreover have "drop (n + w) s ! j = s ! (n + w + j)"
            using w by (intro nth_drop) simp
          ultimately show ?thesis by (simp add: v Suc)
        qed
        have dd: "drop v' (drop (n + w) s) = drop v s" by (simp add: v add.commute)
        have nn: "drop (n + w) s ! (v' + m) = s ! (v + m)"
          using w by (subst nth_drop) (simp_all add: v ac_simps)
        from ih w last show ?thesis
          unfolding dd nn by (auto simp: v k)
      qed
    qed
  qed
qed


lemma tag_spec_More_inv:
  assumes "tag_spec inp p = More it p'"
  obtains n1 r w p3 n4 w5 n6 v k where
    "fws_len (drop p inp) = Some n1"
    "next_rune (drop (p + n1) inp) = (r, w)" "r \<noteq> eof" "isAlpha r"
    "p3 = p + n1 + w + length (takeWhile tagchar (drop (p + n1 + w) inp))"
    "fws_len (drop p3 inp) = Some n4"
    "next_rune (drop (p3 + n4) inp) = (byte CHR ''='', w5)"
    "fws_len (drop (p3 + n4 + w5) inp) = Some n6"
    "value_len (drop (p3 + n4 + w5 + n6) inp) = Some (v, k)"
    "it = \<lparr>Tag = slice inp (p + n1) p3,
            Value = slice inp (p3 + n4 + w5 + n6) (p3 + n4 + w5 + n6 + v),
            TagPos = p + n1, ValuePos = p3 + n4 + w5 + n6\<rparr>"
    "p' = p3 + n4 + w5 + n6 + k"
proof -
  from assms obtain n1 where n1: "fws_len (drop p inp) = Some n1"
    by (auto simp: tag_spec_def split: option.splits)
  obtain r w where nr: "next_rune (drop (p + n1) inp) = (r, w)" by force
  from assms n1 nr have r: "r \<noteq> eof" "isAlpha r"
    by (auto simp: tag_spec_def Let_def split: if_splits)
  define p3 where "p3 = p + n1 + w + length (takeWhile tagchar (drop (p + n1 + w) inp))"
  have "\<exists>n4 w5 n6 v k.
      fws_len (drop p3 inp) = Some n4
    \<and> next_rune (drop (p3 + n4) inp) = (byte CHR ''='', w5)
    \<and> fws_len (drop (p3 + n4 + w5) inp) = Some n6
    \<and> value_len (drop (p3 + n4 + w5 + n6) inp) = Some (v, k)
    \<and> it = \<lparr>Tag = slice inp (p + n1) p3,
            Value = slice inp (p3 + n4 + w5 + n6) (p3 + n4 + w5 + n6 + v),
            TagPos = p + n1, ValuePos = p3 + n4 + w5 + n6\<rparr>
    \<and> p' = p3 + n4 + w5 + n6 + k"
    using assms n1 nr r unfolding p3_def
    by (auto simp: tag_spec_def Let_def split: option.splits prod.splits if_splits)
  with that n1 nr r p3_def show thesis by blast
qed



lemma drop_slice:
  "p \<le> q \<Longrightarrow> q \<le> length s \<Longrightarrow> drop p s = slice s p q @ drop q s"
proof -
  assume a: "p \<le> q" "q \<le> length s"
  have "take (q - p) (drop p s) @ drop (q - p) (drop p s) = drop p s"
    by (rule append_take_drop_id)
  moreover have "drop (q - p) (drop p s) = drop q s" using a by simp
  ultimately show ?thesis by (simp add: slice_def)
qed

lemma length_slice: "q \<le> length s \<Longrightarrow> length (slice s p q) = q - p"
  by (auto simp: slice_def)

lemma slice_take_drop: "slice s p (p + n) = take n (drop p s)"
  by (simp add: slice_def)

lemma next_rune_ascii_inv:
  assumes "next_rune s = (r, w)" and "0 \<le> r" and "r < 0x80"
  obtains c cs where "s = c # cs" "byte c = r" "w = 1"
proof -
  from assms(1,2) have "s \<noteq> []" by (auto simp: next_rune_def eof_def)
  then obtain c cs where s: "s = c # cs" by (cases s) auto
  with assms(1) have d: "DecodeRuneInString (c # cs) = (r, w)" by (simp add: next_rune_def)
  from Decode_cases [OF d] assms(3) have "byte c = r" "w = 1" by auto
  with s that show thesis by blast
qed

lemma isAlpha_range: "isAlpha r \<Longrightarrow> 0 \<le> r \<and> r < 0x80"
  by (auto simp: isAlpha_def byte_def)

lemma byte_eq_sign: "byte c = byte CHR ''='' \<longleftrightarrow> c = CHR ''=''"
  by (rule byte_inj)

lemma tag_spec_More_layout:
  assumes "tag_spec inp p = More it p'"
  shows "\<exists>a b c d. is_ofws a \<and> is_ofws b \<and> is_ofws c \<and> is_ofws d
     \<and> Tag it \<noteq> [] \<and> TagPos it = p + length a
     \<and> ValuePos it = p + length a + length (Tag it) + length b + 1 + length c
     \<and> (Value it = [] \<or> \<not> wsp (last (Value it)))
     \<and> p' \<le> length inp
     \<and> (drop p inp = a @ Tag it @ b @ ''='' @ c @ Value it @ d @ '';'' @ drop p' inp
        \<or> (drop p inp = a @ Tag it @ b @ ''='' @ c @ Value it @ d \<and> p' = length inp))"
proof -
  from assms obtain n1 r w p3 n4 w5 n6 v k where
    n1: "fws_len (drop p inp) = Some n1" and
    nr: "next_rune (drop (p + n1) inp) = (r, w)" and r: "r \<noteq> eof" "isAlpha r" and
    p3: "p3 = p + n1 + w + length (takeWhile tagchar (drop (p + n1 + w) inp))" and
    n4: "fws_len (drop p3 inp) = Some n4" and
    nr5: "next_rune (drop (p3 + n4) inp) = (byte CHR ''='', w5)" and
    n6: "fws_len (drop (p3 + n4 + w5) inp) = Some n6" and
    vk: "value_len (drop (p3 + n4 + w5 + n6) inp) = Some (v, k)" and
    it: "it = \<lparr>Tag = slice inp (p + n1) p3,
            Value = slice inp (p3 + n4 + w5 + n6) (p3 + n4 + w5 + n6 + v),
            TagPos = p + n1, ValuePos = p3 + n4 + w5 + n6\<rparr>" and
    p': "p' = p3 + n4 + w5 + n6 + k"
    by (rule tag_spec_More_inv)
  define p1 where "p1 = p + n1"
  define p4 where "p4 = p3 + n4"
  define p6 where "p6 = p4 + 1 + n6"
  from isAlpha_range [OF r(2)] nr obtain c1 cs1 where
    c1: "drop p1 inp = c1 # cs1" and w: "w = 1"
    by (auto elim!: next_rune_ascii_inv simp: p1_def)
  then have l1: "p1 < length inp" by (metis drop_eq_Nil not_le list.distinct(1))
  have l3: "p1 < p3" "p3 \<le> length inp"
  proof -
    have "length (takeWhile tagchar (drop (p1 + 1) inp)) \<le> length inp - (p1 + 1)"
      using length_takeWhile_le [of tagchar "drop (p1 + 1) inp"] by simp
    with l1 show "p1 < p3" "p3 \<le> length inp" by (simp_all add: p3 w p1_def)
  qed
  note f1 = fws_len_take(1,2) [OF n1]
  note f4 = fws_len_take(1,2) [OF n4]
  have l4: "p4 \<le> length inp" using f4(1) l3 by (simp add: p4_def)
  have "(0::int) \<le> byte CHR ''=''" "byte CHR ''='' < 0x80" by (simp_all add: byte_def)
  with nr5 obtain c5 cs5 where c5: "drop p4 inp = c5 # cs5" "byte c5 = byte CHR ''=''" and w5: "w5 = 1"
    by (auto elim!: next_rune_ascii_inv simp: p4_def)
  then have c5e: "c5 = CHR ''=''" by (simp add: byte_eq_sign)
  have l5: "p4 < length inp" using c5 by (metis drop_eq_Nil not_le list.distinct(1))
  have n6': "fws_len (drop (p4 + 1) inp) = Some n6" using n6 by (simp add: w5 p4_def)
  note f6 = fws_len_take(1,2) [OF n6']
  have l6: "p6 \<le> length inp" using f6(1) l5 by (simp add: p6_def)
  have vk': "value_len (drop p6 inp) = Some (v, k)"
    using vk by (simp add: p6_def p4_def w5)
  from value_len_Some [OF vk'] obtain n where
    v: "v \<le> k" "k \<le> length inp - p6" "v = 0 \<or> \<not> wsp (drop p6 inp ! (v - 1))"
    and fn: "fws_len (drop (p6 + v) inp) = Some n"
    and alt: "(k = v + n \<and> k = length inp - p6)
       \<or> (k = v + n + 1 \<and> v + n < length inp - p6 \<and> drop p6 inp ! (v + n) = CHR '';'')"
    by (auto simp: add.commute)
  note fv = fws_len_take(1,2) [OF fn]
  define a where "a = slice inp p p1"
  define tg where "tg = slice inp p1 p3"
  define b where "b = slice inp p3 p4"
  define c where "c = slice inp (p4 + 1) p6"
  define vl where "vl = slice inp p6 (p6 + v)"
  define d where "d = slice inp (p6 + v) (p6 + v + n)"
  have lv: "p6 + v \<le> length inp" "p6 + v + n \<le> length inp"
    using v l6 alt by auto
  have itv: "Tag it = tg" "Value it = vl" "TagPos it = p1" "ValuePos it = p6"
    by (simp_all add: it tg_def vl_def p1_def p6_def p4_def w5)
  have len: "length a = n1" "length tg = p3 - p1" "length b = n4" "length c = n6" "length vl = v"
    using l1 l3 l4 l6 lv
    by (simp_all add: a_def tg_def b_def c_def vl_def length_slice p1_def p4_def p6_def)
  have "a = take n1 (drop p inp)" "b = take n4 (drop p3 inp)"
    "c = take n6 (drop (p4 + 1) inp)" "d = take n (drop (p6 + v) inp)"
    by (simp_all add: a_def b_def c_def d_def p1_def p4_def p6_def slice_def)
  then have ofws: "is_ofws a" "is_ofws b" "is_ofws c" "is_ofws d"
    using f1(2) f4(2) f6(2) fv(2) by simp_all
  have eqs: "slice inp p4 (p4 + 1) = ''=''"
    using c5 c5e by (simp add: slice_def)
  have chain: "drop p inp = a @ tg @ b @ ''='' @ c @ vl @ d @ drop (p6 + v + n) inp"
  proof -
    have "drop p inp = a @ drop p1 inp"
      unfolding a_def using l1 by (intro drop_slice) (simp_all add: p1_def)
    also have "drop p1 inp = tg @ drop p3 inp"
      unfolding tg_def using l3 by (intro drop_slice) simp_all
    also have "drop p3 inp = b @ drop p4 inp"
      unfolding b_def using l4 by (intro drop_slice) (simp_all add: p4_def)
    also have "drop p4 inp = ''='' @ drop (p4 + 1) inp"
      unfolding eqs [symmetric] using l5 by (intro drop_slice) simp_all
    also have "drop (p4 + 1) inp = c @ drop p6 inp"
      unfolding c_def using l6 by (intro drop_slice) (simp_all add: p6_def)
    also have "drop p6 inp = vl @ drop (p6 + v) inp"
      unfolding vl_def using lv by (intro drop_slice) simp_all
    also have "drop (p6 + v) inp = d @ drop (p6 + v + n) inp"
      unfolding d_def using lv by (intro drop_slice) simp_all
    finally show ?thesis by simp
  qed
  have trim: "vl = [] \<or> \<not> wsp (last vl)"
  proof (cases "v = 0")
    case True
    with len show ?thesis by simp
  next
    case False
    with len have ne: "vl \<noteq> []" by auto
    have "last vl = vl ! (v - 1)" using ne len by (simp add: last_conv_nth)
    also have "\<dots> = drop p6 inp ! (v - 1)"
      using False by (simp add: vl_def slice_def)
    finally show ?thesis using v(3) False by simp
  qed
  have tgne: "tg \<noteq> []" using len l3 by auto
  have vpos: "p6 = p + length a + length tg + length b + 1 + length c"
    using l3 by (simp add: len p6_def p4_def p1_def)
  have fin: "(drop (p6 + v + n) inp = '';'' @ drop p' inp) \<or> (drop (p6 + v + n) inp = [] \<and> p' = length inp)"
  proof -
    have p'': "p' = p6 + k" by (simp add: p' p6_def p4_def w5)
    from alt show ?thesis
    proof
      assume "k = v + n \<and> k = length inp - p6"
      then have "k = v + n" "v + n = length inp - p6" by simp_all
      with l6 have "p6 + v + n = length inp" "p' = length inp" unfolding p'' by linarith+
      then show ?thesis by simp
    next
      assume s: "k = v + n + 1 \<and> v + n < length inp - p6 \<and> drop p6 inp ! (v + n) = CHR '';''"
      then have s': "k = v + n + 1" "v + n < length inp - p6" "drop p6 inp ! (v + n) = CHR '';''"
        by simp_all
      from s'(2) have lt: "p6 + v + n < length inp" by linarith
      have "inp ! (p6 + v + n) = CHR '';''"
        using s'(3) l6 by (simp add: add.assoc)
      with lt have "drop (p6 + v + n) inp = CHR '';'' # drop (Suc (p6 + v + n)) inp"
        by (metis Cons_nth_drop_Suc)
      with s'(1) show ?thesis by (simp add: p'' add.assoc)
    qed
  qed
  show ?thesis
  proof (rule exI [of _ a], rule exI [of _ b], rule exI [of _ c], rule exI [of _ d], intro conjI)
    show "is_ofws a" "is_ofws b" "is_ofws c" "is_ofws d" by (rule ofws)+
    show "Tag it \<noteq> []" by (simp add: itv tgne)
    show "TagPos it = p + length a" by (simp add: itv len p1_def)
    show "ValuePos it = p + length a + length (Tag it) + length b + 1 + length c"
      unfolding itv by (rule vpos)
    show "Value it = [] \<or> \<not> wsp (last (Value it))" unfolding itv by (rule trim)
    show "p' \<le> length inp" using v(2) l6 by (simp add: p' p6_def p4_def w5)
    show "drop p inp = a @ Tag it @ b @ ''='' @ c @ Value it @ d @ '';'' @ drop p' inp
        \<or> (drop p inp = a @ Tag it @ b @ ''='' @ c @ Value it @ d \<and> p' = length inp)"
      unfolding itv using chain fin by auto
  qed
qed


lemma Contains_append:
  "Contains (u @ sub @ v) sub"
proof -
  have "take (length sub) (drop (length u) (u @ sub @ v)) = sub" by simp
  moreover have "length u \<in> set [0..<Suc (length (u @ sub @ v))]" by simp
  ultimately show ?thesis unfolding Contains_def list_ex_iff by blast
qed

lemma is_ofws_blank:
  assumes "is_ofws x" and "\<not> Contains (u @ x @ v) [CHR 0x0D, CHR 0x0A]"
  shows "list_all wsp x"
proof (rule ccontr)
  assume "\<not> list_all wsp x"
  with is_ofws_cases [OF assms(1)] obtain a b where "x = a @ CHR 0x0D # CHR 0x0A # b" by blast
  then have "u @ x @ v = (u @ a) @ [CHR 0x0D, CHR 0x0A] @ (b @ v)" by simp
  with Contains_append [of "u @ a" "[CHR 0x0D, CHR 0x0A]" "b @ v"] assms(2) show False by simp
qed

text \<open>
  The serialization \<open><tag>=<value>;\<close> of the items in order, and the same text with a
  padding before and after each tag and each value. A padding is blank when its four
  parts are spaces and tabs.
\<close>

definition serialize :: "Item list \<Rightarrow> string" where
  "serialize items = concat (map (\<lambda>it. Tag it @ ''='' @ Value it @ '';'') items)"

type_synonym padding = "string \<times> string \<times> string \<times> string"

definition padded :: "padding list \<Rightarrow> Item list \<Rightarrow> string" where
  "padded pads items =
     concat (map (\<lambda>((a, b, c, d), it). a @ Tag it @ b @ ''='' @ c @ Value it @ d @ '';'')
               (zip pads items))"

definition blank :: "padding \<Rightarrow> bool" where
  "blank = (\<lambda>(a, b, c, d). list_all wsp a \<and> list_all wsp b \<and> list_all wsp c \<and> list_all wsp d)"

lemma padded_Cons:
  "padded ((a, b, c, d) # pads) (it # items) =
     a @ Tag it @ b @ ''='' @ c @ Value it @ d @ '';'' @ padded pads items"
  by (simp add: padded_def)

lemma padded_none: "padded (map (\<lambda>_. ([], [], [], [])) items) items = serialize items"
  by (induction items) (simp_all add: padded_def serialize_def)

lemma tag_spec_Done:
  assumes "tag_spec inp p = Done"
  shows "is_ofws (drop p inp)"
proof -
  from assms obtain n1 where n1: "fws_len (drop p inp) = Some n1"
    by (auto simp: tag_spec_def split: option.splits)
  obtain r w where nr: "next_rune (drop (p + n1) inp) = (r, w)" by force
  from assms n1 nr have "r = eof"
    by (auto simp: tag_spec_def Let_def split: if_splits option.splits prod.splits)
  with next_rune_eof [of "drop (p + n1) inp"] nr have "drop (p + n1) inp = []" by simp
  then have "length (drop p inp) \<le> n1" by simp
  with fws_len_take(2) [OF n1] show ?thesis by simp
qed

lemma parse_loop_layout:
  assumes "parse_loop inp p items0 = Inr res" and "\<not> Contains inp [CHR 0x0D, CHR 0x0A]"
  shows "\<exists>new pads tail. res = items0 @ new \<and> length pads = length new \<and> list_all blank pads
           \<and> list_all wsp tail
           \<and> (drop p inp = padded pads new @ tail \<or> drop p inp @ '';'' = padded pads new)"
  using assms
proof (induction inp p items0 rule: parse_loop.induct)
  case (1 inp p items)
  have noc: "is_ofws x \<Longrightarrow> drop p inp = u @ x @ v \<Longrightarrow> list_all wsp x" for x u v
  proof -
    assume x: "is_ofws x" and e: "drop p inp = u @ x @ v"
    have "inp = (take p inp @ u) @ x @ v"
      using append_take_drop_id [of p inp] e by simp
    with "1.prems"(2) have "\<not> Contains ((take p inp @ u) @ x @ v) [CHR 0x0D, CHR 0x0A]" by simp
    from is_ofws_blank [OF x this] show ?thesis .
  qed
  show ?case
  proof (cases "tag_spec inp p")
    case (Fail e)
    with "1.prems" show ?thesis by (subst (asm) parse_loop.simps) simp
  next
    case Done
    with "1.prems" have res: "res = items" by (subst (asm) parse_loop.simps) simp
    from tag_spec_Done [OF Done] noc [of "drop p inp" "[]" "[]"]
    have "list_all wsp (drop p inp)" by simp
    then show ?thesis
      by (intro exI [of _ "[]"] exI [of _ "drop p inp"]) (simp add: res padded_def)
  next
    case (More it p')
    with "1.prems"(1) have pl: "parse_loop inp p' (items @ [it]) = Inr res"
      by (subst (asm) parse_loop.simps) simp
    from tag_spec_More_layout [OF More] obtain a b c d where
      o: "is_ofws a" "is_ofws b" "is_ofws c" "is_ofws d" and
      lay: "drop p inp = a @ Tag it @ b @ ''='' @ c @ Value it @ d @ '';'' @ drop p' inp
        \<or> (drop p inp = a @ Tag it @ b @ ''='' @ c @ Value it @ d \<and> p' = length inp)"
      by blast
    have bl: "blank (a, b, c, d)"
    proof -
      from lay obtain rest where e: "drop p inp = a @ Tag it @ b @ ''='' @ c @ Value it @ d @ rest"
        by auto
      have "list_all wsp a" using noc [OF o(1), of "[]"] e by simp
      moreover have "list_all wsp b" using noc [OF o(2), of "a @ Tag it"] e by simp
      moreover have "list_all wsp c" using noc [OF o(3), of "a @ Tag it @ b @ ''=''"] e by simp
      moreover have "list_all wsp d"
        using noc [OF o(4), of "a @ Tag it @ b @ ''='' @ c @ Value it"] e by simp
      ultimately show ?thesis by (simp add: blank_def)
    qed
    from lay show ?thesis
    proof
      assume e: "drop p inp = a @ Tag it @ b @ ''='' @ c @ Value it @ d @ '';'' @ drop p' inp"
      from "1.IH" [OF More pl "1.prems"(2)] obtain new pads tail where
        ih: "res = (items @ [it]) @ new" "length pads = length new" "list_all blank pads"
          "list_all wsp tail"
          "drop p' inp = padded pads new @ tail \<or> drop p' inp @ '';'' = padded pads new"
        by blast
      show ?thesis
      proof (rule exI [of _ "it # new"], rule exI [of _ "(a, b, c, d) # pads"],
          rule exI [of _ tail], intro conjI)
        show "res = items @ it # new" using ih(1) by simp
        show "length ((a, b, c, d) # pads) = length (it # new)" using ih(2) by simp
        show "list_all blank ((a, b, c, d) # pads)" using ih(3) bl by simp
        show "list_all wsp tail" by (rule ih(4))
        show "drop p inp = padded ((a, b, c, d) # pads) (it # new) @ tail
            \<or> drop p inp @ '';'' = padded ((a, b, c, d) # pads) (it # new)"
          using ih(5) unfolding padded_Cons e by auto
      qed
    next
      assume e: "drop p inp = a @ Tag it @ b @ ''='' @ c @ Value it @ d \<and> p' = length inp"
      with pl have "res = items @ [it]"
        by (subst (asm) parse_loop.simps) (simp add: tag_spec_end)
      moreover have "drop p inp @ '';'' = padded [(a, b, c, d)] [it]"
        using e by (simp add: padded_def)
      ultimately show ?thesis
        using bl by (intro exI [of _ "[it]"] exI [of _ "[(a, b, c, d)]"] exI [of _ "[]"]) simp
    qed
  qed
qed

section \<open>Sample inputs\<close>

text \<open>The parses of the concrete inputs used below, computed from the definitions.\<close>

lemma parse_x1_v2:
  "NewTagValue ''x=1; v=2'' =
     Inr [\<lparr>Tag = ''x'', Value = ''1'', TagPos = 0, ValuePos = 2\<rparr>,
          \<lparr>Tag = ''v'', Value = ''2'', TagPos = 5, ValuePos = 7\<rparr>]"
  unfolding NewTagValue_eq by code_simp

lemma parse_a: "NewTagValue ''a'' =
    Inl (ParseError_error \<lparr>ParseError.Message = ''expecting '' @ [CHR 0x27, CHR ''='', CHR 0x27], Pos = 1\<rparr>)"
  unfolding NewTagValue_eq by code_simp

lemma parse_dup: "NewTagValue ''a=1; b=2; a=3'' =
    Inr [\<lparr>Tag = ''a'', Value = ''1'', TagPos = 0, ValuePos = 2\<rparr>,
         \<lparr>Tag = ''b'', Value = ''2'', TagPos = 5, ValuePos = 7\<rparr>,
         \<lparr>Tag = ''a'', Value = ''3'', TagPos = 10, ValuePos = 12\<rparr>]"
  unfolding NewTagValue_eq by code_simp

lemma parse_g_star: "NewTagValue ''g=*'' =
    Inr [\<lparr>Tag = ''g'', Value = ''*'', TagPos = 0, ValuePos = 2\<rparr>]"
  unfolding NewTagValue_eq by code_simp

lemma parse_h_md5: "NewTagValue ''h=md5'' =
    Inr [\<lparr>Tag = ''h'', Value = ''md5'', TagPos = 0, ValuePos = 2\<rparr>]"
  unfolding NewTagValue_eq by code_simp

lemma parse_v_g: "NewTagValue ''v=DKIM1; g=x'' =
    Inr [\<lparr>Tag = ''v'', Value = ''DKIM1'', TagPos = 0, ValuePos = 2\<rparr>,
         \<lparr>Tag = ''g'', Value = ''x'', TagPos = 9, ValuePos = 11\<rparr>]"
  unfolding NewTagValue_eq by code_simp

lemma parse_bad_fold:
  "NewTagValue (''a=b'' @ [CHR 0x0D, CHR 0x0A] @ ''c'') = Inl (errorString ''malformed folding whitespace'')"
  unfolding NewTagValue_eq by code_simp


lemma parse_two_padded:
  "NewTagValue '' a = b c ; d=e ; '' =
     Inr [\<lparr>Tag = ''a'', Value = ''b c'', TagPos = 1, ValuePos = 5\<rparr>,
          \<lparr>Tag = ''d'', Value = ''e'', TagPos = 11, ValuePos = 13\<rparr>]"
  unfolding NewTagValue_eq by code_simp

lemma no_fold_two_padded: "\<not> Contains '' a = b c ; d=e ; '' [CHR 0x0D, CHR 0x0A]"
  by code_simp

lemma parse_fold_then_crlf:
  "NewTagValue (''a=b'' @ [CHR 0x0D, CHR 0x0A] @ '' '' @ [CHR 0x0D, CHR 0x0A] @ ''c'') =
     Inr [\<lparr>Tag = ''a'', Value = ''b'' @ [CHR 0x0D, CHR 0x0A] @ '' '' @ [CHR 0x0D, CHR 0x0A] @ ''c'',
           TagPos = 0, ValuePos = 2\<rparr>]"
  unfolding NewTagValue_eq by code_simp


lemma calls_second_round:
  "fwsCalls (''a=b; c '' @ [CHR 0x0D, CHR 0x0A] @ ''=d'') = [0, 1, 2, 3, 4, 6]"
  by code_simp

lemma calls_fold_then_crlf:
  "fwsCalls (''a=b'' @ [CHR 0x0D, CHR 0x0A] @ '' '' @ [CHR 0x0D, CHR 0x0A] @ ''c'') = [0, 1, 2, 3, 7, 9, 9]"
  by code_simp

section \<open>The properties\<close>

text \<open>
  C9. For every input that parses, the \<open>Unrecognized\<close> map of the key returned by
  \<open>NewDkimKey\<close> has no entry under any of the eight known tag names
  \<open>v, g, h, k, n, p, s, t\<close>.
\<close>

theorem Unrecognized_has_no_known_key:
  assumes "NewMap inp = Inr m"
    and "k \<in> {''v'', ''g'', ''h'', ''k'', ''n'', ''p'', ''s'', ''t''}"
  shows "Unrecognized (NewDkimKey inp) k = None"
proof -
  have "Unrecognized (NewDkimKey inp) =
      delete_keys [''v'', ''g'', ''h'', ''k'', ''n'', ''p'', ''s'', ''t''] m"
    unfolding NewDkimKey_Inr [OF assms(1)] by (simp add: projectFields_def)
  moreover have "k \<in> set [''v'', ''g'', ''h'', ''k'', ''n'', ''p'', ''s'', ''t'']"
    using assms(2) by (simp only: list.set)
  ultimately show ?thesis by (simp only: delete_keys_apply if_True)
qed

theorem Unrecognized_has_no_known_key_witness:
  "NewMap ''x=1; v=2'' =
     Inr (NewMap_loop 0 [\<lparr>Tag = ''x'', Value = ''1'', TagPos = 0, ValuePos = 2\<rparr>,
                         \<lparr>Tag = ''v'', Value = ''2'', TagPos = 5, ValuePos = 7\<rparr>] Map.empty)
   \<and> ''v'' \<in> {''v'', ''g'', ''h'', ''k'', ''n'', ''p'', ''s'', ''t''}
   \<and> Unrecognized (NewDkimKey ''x=1; v=2'') ''v'' = None"
proof -
  have h1: "NewMap ''x=1; v=2'' =
     Inr (NewMap_loop 0 [\<lparr>Tag = ''x'', Value = ''1'', TagPos = 0, ValuePos = 2\<rparr>,
                         \<lparr>Tag = ''v'', Value = ''2'', TagPos = 5, ValuePos = 7\<rparr>] Map.empty)"
    by (rule NewMap_Inr [OF parse_x1_v2])
  have h2: "''v'' \<in> {''v'', ''g'', ''h'', ''k'', ''n'', ''p'', ''s'', ''t''}" by simp
  from Unrecognized_has_no_known_key [OF h1 h2] h1 h2 show ?thesis by blast
qed

text \<open>
  C8. When parsing fails, the key returned by \<open>NewDkimKey\<close> is the zero value except
  for \<open>ParseError\<close>: every named field is the zero \<open>Field\<close> (not defined, no
  annotation) and \<open>Unrecognized\<close> is empty. \<open>ParseError\<close> is set exactly when parsing
  fails, so a set \<open>ParseError\<close> and populated fields exclude each other.
\<close>

theorem parse_failure_populates_only_ParseError:
  "(isl (NewMap inp) \<longleftrightarrow> ParseError (NewDkimKey inp) \<noteq> \<lparr>ParseError.Message = [], Pos = 0\<rparr>)
   \<and> (isl (NewMap inp) \<longrightarrow>
        NewDkimKey inp = zeroDkimKey\<lparr>ParseError := ParseError (NewDkimKey inp)\<rparr>)"
proof (cases "NewMap inp")
  case (Inl err)
  then have t: "NewTagValue inp = Inl err" by (auto simp: NewMap_def split: sum.splits)
  from NewTagValue_error_message [OF t] have "Error err \<noteq> []" .
  then have ne: "(case err of ParseError_error v \<Rightarrow> v | errorString s \<Rightarrow> \<lparr>ParseError.Message = s, Pos = 0\<rparr>)
      \<noteq> \<lparr>ParseError.Message = [], Pos = 0\<rparr>"
    by (cases err) auto
  show ?thesis
    unfolding NewDkimKey_Inl [OF Inl] using Inl ne by simp
next
  case (Inr m)
  then show ?thesis by (simp add: NewDkimKey_Inr)
qed

theorem parse_failure_populates_only_ParseError_witness:
  "isl (NewMap ''a'')
   \<and> NewDkimKey ''a'' = zeroDkimKey\<lparr>ParseError :=
         \<lparr>ParseError.Message = ''expecting '' @ [CHR 0x27, CHR ''='', CHR 0x27], Pos = 1\<rparr>\<rparr>
   \<and> V (NewDkimKey ''a'') = zeroField \<and> Unrecognized (NewDkimKey ''a'') = Map.empty"
proof -
  have h: "NewMap ''a'' = Inl (ParseError_error
      \<lparr>ParseError.Message = ''expecting '' @ [CHR 0x27, CHR ''='', CHR 0x27], Pos = 1\<rparr>)"
    by (simp add: NewMap_def parse_a)
  then have i: "isl (NewMap ''a'')" by simp
  have p: "ParseError (NewDkimKey ''a'') =
      \<lparr>ParseError.Message = ''expecting '' @ [CHR 0x27, CHR ''='', CHR 0x27], Pos = 1\<rparr>"
    by (simp add: NewDkimKey_Inl [OF h])
  from parse_failure_populates_only_ParseError [of "''a''"] i
  have "NewDkimKey ''a'' = zeroDkimKey\<lparr>ParseError := ParseError (NewDkimKey ''a'')\<rparr>" by blast
  then have e: "NewDkimKey ''a'' = zeroDkimKey\<lparr>ParseError :=
         \<lparr>ParseError.Message = ''expecting '' @ [CHR 0x27, CHR ''='', CHR 0x27], Pos = 1\<rparr>\<rparr>"
    by (simp only: p)
  show ?thesis using i e by (simp add: zeroDkimKey_def)
qed

text \<open>
  C1. When an input parses and a tag name occurs more than once among the items, the
  map of \<open>NewMap\<close> holds for that name the field of the last occurrence (at index \<open>j\<close>):
  its value and positions, \<open>Index = j\<close> counted from 0 among all items, and
  \<open>Duplicate = True\<close>. A map has one entry for a key.
\<close>

theorem NewMap_last_occurrence_wins:
  assumes "NewMap inp = Inr m" and "NewTagValue inp = Inr items"
    and "j < length items" and "Tag (items ! j) = t"
    and "t \<notin> Tag ` set (drop (Suc j) items)"
    and "t \<in> Tag ` set (take j items)"
  shows "m t = Some \<lparr>Tag = t, Value = Value (items ! j), TagPos = TagPos (items ! j),
                     ValuePos = ValuePos (items ! j), Index = j, Duplicate = True,
                     Defined = True, Errors = []\<rparr>"
proof -
  from assms(1,2) have m: "m = NewMap_loop 0 items Map.empty" by (simp add: NewMap_def)
  define xs where "xs = take j items"
  define ys where "ys = drop (Suc j) items"
  have split: "items = xs @ [items ! j] @ ys"
    using assms(3) by (simp add: id_take_nth_drop xs_def ys_def)
  have len: "length xs = j" using assms(3) by (simp add: xs_def)
  define m1 where "m1 = NewMap_loop 0 xs Map.empty"
  have seen: "m1 t \<noteq> None"
    using NewMap_loop_dom [of 0 xs Map.empty] assms(6) by (auto simp: m1_def xs_def)
  have "m = NewMap_loop 0 (xs @ [items ! j] @ ys) Map.empty"
    unfolding m using split by simp
  also have "\<dots> = NewMap_loop (Suc j) ys (NewMap_loop j [items ! j] m1)"
    by (simp only: NewMap_loop_append len m1_def add_0 length_Cons list.size add_Suc_right add_0_right)
  finally have "m t = NewMap_loop j [items ! j] m1 t"
    using NewMap_loop_other [OF assms(5)] by (simp add: ys_def)
  also have "\<dots> = Some \<lparr>Tag = t, Value = Value (items ! j), TagPos = TagPos (items ! j),
                     ValuePos = ValuePos (items ! j), Index = j, Duplicate = True,
                     Defined = True, Errors = []\<rparr>"
    using seen assms(4) by (simp add: Let_def)
  finally show ?thesis .
qed

theorem NewMap_last_occurrence_wins_witness:
  "NewMap ''a=1; b=2; a=3'' =
     Inr (NewMap_loop 0 [\<lparr>Tag = ''a'', Value = ''1'', TagPos = 0, ValuePos = 2\<rparr>,
         \<lparr>Tag = ''b'', Value = ''2'', TagPos = 5, ValuePos = 7\<rparr>,
         \<lparr>Tag = ''a'', Value = ''3'', TagPos = 10, ValuePos = 12\<rparr>] Map.empty)
   \<and> NewMap_loop 0 [\<lparr>Tag = ''a'', Value = ''1'', TagPos = 0, ValuePos = 2\<rparr>,
         \<lparr>Tag = ''b'', Value = ''2'', TagPos = 5, ValuePos = 7\<rparr>,
         \<lparr>Tag = ''a'', Value = ''3'', TagPos = 10, ValuePos = 12\<rparr>] Map.empty ''a'' =
       Some \<lparr>Tag = ''a'', Value = ''3'', TagPos = 10, ValuePos = 12, Index = 2,
             Duplicate = True, Defined = True, Errors = []\<rparr>"
proof -
  let ?items = "[\<lparr>Tag = ''a'', Value = ''1'', TagPos = 0, ValuePos = 2\<rparr>,
         \<lparr>Tag = ''b'', Value = ''2'', TagPos = 5, ValuePos = 7\<rparr>,
         \<lparr>Tag = ''a'', Value = ''3'', TagPos = 10, ValuePos = 12\<rparr>]"
  have h2: "NewTagValue ''a=1; b=2; a=3'' = Inr ?items"
    by (rule parse_dup)
  have h1: "NewMap ''a=1; b=2; a=3'' = Inr (NewMap_loop 0 ?items Map.empty)"
    by (simp add: NewMap_def h2)
  have h3: "2 < length ?items" by simp
  have h4: "Tag (?items ! 2) = ''a''" by simp
  have h5: "''a'' \<notin> Tag ` set (drop (Suc 2) ?items)" by simp
  have h6: "''a'' \<in> Tag ` set (take 2 ?items)" by simp
  from NewMap_last_occurrence_wins [OF h1 h2 h3 h4 h5 h6] h1 show ?thesis by simp
qed

text \<open>
  C3. The claim: a \<open>g\<close> tag with value \<open>*\<close> gives the \<open>g\<close> field one warning, any
  other value one danger annotation. On the input \<open>g=*\<close> the \<open>g\<close> field is defined with
  value \<open>*\<close> and has no annotation: the block headed \<open>Annotate granularity\<close> tests
  \<open>ret.G\<close> and annotates \<open>ret.V\<close>, which ends with two warnings.
\<close>

theorem granularity_star_leaves_G_bare:
  "Defined (G (NewDkimKey ''g=*'')) \<and> Value (G (NewDkimKey ''g=*'')) = ''*''
   \<and> Errors (G (NewDkimKey ''g=*'')) = []
   \<and> map Severity (Errors (V (NewDkimKey ''g=*''))) = [''warning'', ''warning'']"
proof -
  have k: "NewDkimKey ''g=*'' = annotateHashes (annotateGranularity (annotateVersion
      (projectFields (NewMap_loop 0 [\<lparr>Tag = ''g'', Value = ''*'', TagPos = 0, ValuePos = 2\<rparr>] Map.empty))))"
    by (rule NewDkimKey_Inr [OF NewMap_Inr [OF parse_g_star]])
  have v: "map Severity (Errors (V (NewDkimKey ''g=*''))) = [''warning'', ''warning'']"
    unfolding k by code_simp
  have "G (NewDkimKey ''g=*'') =
      G (projectFields (NewMap_loop 0 [\<lparr>Tag = ''g'', Value = ''*'', TagPos = 0, ValuePos = 2\<rparr>] Map.empty))"
    by (simp add: NewDkimKey_Inr [OF NewMap_Inr [OF parse_g_star]])
  with v show ?thesis by (simp add: projectFields_def index_def)
qed

text \<open>
  C4. The claim: a token of \<open>h\<close> other than \<open>sha256\<close> and \<open>sha1\<close> gives one warning
  whose message names the token. On the input \<open>h=md5\<close> the \<open>h\<close> field has one warning,
  and its message, built by \<open>fmt.Sprintf\<close> with the verb \<open>%s\<close> and no operand, does
  not contain \<open>md5\<close>.
\<close>

theorem hash_warning_omits_token:
  "Errors (H (NewDkimKey ''h=md5'')) =
     [\<lparr>FieldError.Message = ''&#39;%!s(MISSING)&#39; isn&#39;t a hash type I recognize'',
       Severity = ''warning''\<rparr>]
   \<and> \<not> Contains ''&#39;%!s(MISSING)&#39; isn&#39;t a hash type I recognize'' ''md5''"
proof -
  have k: "NewDkimKey ''h=md5'' = annotateHashes (annotateGranularity (annotateVersion
      (projectFields (NewMap_loop 0 [\<lparr>Tag = ''h'', Value = ''md5'', TagPos = 0, ValuePos = 2\<rparr>] Map.empty))))"
    by (rule NewDkimKey_Inr [OF NewMap_Inr [OF parse_h_md5]])
  show ?thesis unfolding k by code_simp
qed

text \<open>
  C6. The claim: \<open>v=DKIM1\<close> as the first tag leaves the \<open>v\<close> field without danger
  annotation. On the input \<open>v=DKIM1; g=x\<close> the \<open>v\<close> field has value \<open>DKIM1\<close> and index
  0 and carries a danger annotation, the one of the granularity block.
\<close>

theorem version_first_still_danger:
  "Value (V (NewDkimKey ''v=DKIM1; g=x'')) = ''DKIM1'' \<and> Index (V (NewDkimKey ''v=DKIM1; g=x'')) = 0
   \<and> map Severity (Errors (V (NewDkimKey ''v=DKIM1; g=x''))) = [''danger'']"
proof -
  have k: "NewDkimKey ''v=DKIM1; g=x'' = annotateHashes (annotateGranularity (annotateVersion
      (projectFields (NewMap_loop 0 [\<lparr>Tag = ''v'', Value = ''DKIM1'', TagPos = 0, ValuePos = 2\<rparr>,
         \<lparr>Tag = ''g'', Value = ''x'', TagPos = 9, ValuePos = 11\<rparr>] Map.empty))))"
    by (rule NewDkimKey_Inr [OF NewMap_Inr [OF parse_v_g]])
  show ?thesis unfolding k by code_simp
qed

text \<open>
  C5. The claim: a CRLF that no space or tab follows, at a place where folding
  whitespace is skipped, makes \<open>NewTagValue\<close> fail with a parse error whose position
  is the offset of the CRLF. On the input \<open>a=b\r\nc\<close> the CRLF is at offset 3 and the
  parse fails, but with the error of \<open>errors.New\<close>, which is no \<open>ParseError\<close> and has
  no position; \<open>NewDkimKey\<close> reports it at position 0. On the input
  \<open>a=b\r\n \r\nc\<close> the CRLF at offset 6 is followed by \<open>c\<close>, and the parse does not
  fail: the value loop has just skipped the fold before it and reads the CR and the LF
  as part of the value.
\<close>

theorem malformed_fold_position_counterexample:
  "take 2 (drop 3 (''a=b'' @ [CHR 0x0D, CHR 0x0A] @ ''c'')) = [CHR 0x0D, CHR 0x0A]
   \<and> NewTagValue (''a=b'' @ [CHR 0x0D, CHR 0x0A] @ ''c'') = Inl (errorString ''malformed folding whitespace'')
   \<and> NewTagValue (''a=b'' @ [CHR 0x0D, CHR 0x0A] @ ''c'') \<noteq>
        Inl (ParseError_error \<lparr>ParseError.Message = ''malformed folding whitespace'', Pos = 3\<rparr>)
   \<and> Pos (ParseError (NewDkimKey (''a=b'' @ [CHR 0x0D, CHR 0x0A] @ ''c''))) = 0
   \<and> take 3 (drop 6 (''a=b'' @ [CHR 0x0D, CHR 0x0A] @ '' '' @ [CHR 0x0D, CHR 0x0A] @ ''c'')) =
        [CHR 0x0D, CHR 0x0A] @ ''c''
   \<and> NewTagValue (''a=b'' @ [CHR 0x0D, CHR 0x0A] @ '' '' @ [CHR 0x0D, CHR 0x0A] @ ''c'') =
        Inr [\<lparr>Tag = ''a'', Value = ''b'' @ [CHR 0x0D, CHR 0x0A] @ '' '' @ [CHR 0x0D, CHR 0x0A] @ ''c'',
              TagPos = 0, ValuePos = 2\<rparr>]"
proof -
  have t: "NewTagValue (''a=b'' @ [CHR 0x0D, CHR 0x0A] @ ''c'') = Inl (errorString ''malformed folding whitespace'')"
    by (rule parse_bad_fold)
  then have "NewMap (''a=b'' @ [CHR 0x0D, CHR 0x0A] @ ''c'') = Inl (errorString ''malformed folding whitespace'')"
    by (simp add: NewMap_def)
  from NewDkimKey_Inl [OF this] t parse_fold_then_crlf show ?thesis by simp
qed

text \<open>
  C5, as the code has it. \<open>NewTagValue\<close> fails with the error
  \<open>malformed folding whitespace\<close> exactly when, at one of the offsets where it calls
  \<open>acceptOptionalFws\<close> (\<open>fwsCalls\<close>), the input continues with a run of spaces and tabs
  and a CRLF that no space or tab follows. The error is the one of \<open>errors.New\<close>: it
  is never a \<open>ParseError\<close>, so it has no position, and \<open>NewDkimKey\<close> reports the
  message at position 0 wherever the CRLF stands.
\<close>

theorem malformed_fold_error_carries_no_position:
  "(NewTagValue inp = Inl (errorString ''malformed folding whitespace'')
      \<longleftrightarrow> (\<exists>q \<in> set (fwsCalls inp). malformedFold (drop q inp)))
   \<and> ((\<exists>q \<in> set (fwsCalls inp). malformedFold (drop q inp)) \<longrightarrow>
        ParseError (NewDkimKey inp) =
          \<lparr>ParseError.Message = ''malformed folding whitespace'', Pos = 0\<rparr>)
   \<and> NewTagValue inp \<noteq>
        Inl (ParseError_error \<lparr>ParseError.Message = ''malformed folding whitespace'', Pos = p\<rparr>)"
proof (intro conjI impI)
  show 1: "NewTagValue inp = Inl (errorString ''malformed folding whitespace'')
      \<longleftrightarrow> (\<exists>q \<in> set (fwsCalls inp). malformedFold (drop q inp))"
    using fwsCalls_iff [of inp] by (simp only: fwsError_def)
  show "ParseError (NewDkimKey inp) = \<lparr>ParseError.Message = ''malformed folding whitespace'', Pos = 0\<rparr>"
    if "\<exists>q \<in> set (fwsCalls inp). malformedFold (drop q inp)"
  proof -
    from that 1 have "NewTagValue inp = Inl (errorString ''malformed folding whitespace'')" by simp
    then have "NewMap inp = Inl (errorString ''malformed folding whitespace'')"
      by (simp add: NewMap_def)
    from NewDkimKey_Inl [OF this] show ?thesis by simp
  qed
  show "NewTagValue inp \<noteq>
        Inl (ParseError_error \<lparr>ParseError.Message = ''malformed folding whitespace'', Pos = p\<rparr>)"
  proof
    assume a: "NewTagValue inp =
        Inl (ParseError_error \<lparr>ParseError.Message = ''malformed folding whitespace'', Pos = p\<rparr>)"
    with parse_loop_Inl [of inp 0 "[]"] obtain q where "tag_spec inp q =
        Fail (ParseError_error \<lparr>ParseError.Message = ''malformed folding whitespace'', Pos = p\<rparr>)"
      by (auto simp: NewTagValue_eq)
    from tag_spec_Fail [OF this] show False by (auto simp: fwsError_def)
  qed
qed

theorem malformed_fold_error_carries_no_position_witness:
  "fwsCalls (''a=b; c '' @ [CHR 0x0D, CHR 0x0A] @ ''=d'') = [0, 1, 2, 3, 4, 6]
   \<and> malformedFold (drop 6 (''a=b; c '' @ [CHR 0x0D, CHR 0x0A] @ ''=d''))
   \<and> NewTagValue (''a=b; c '' @ [CHR 0x0D, CHR 0x0A] @ ''=d'') =
        Inl (errorString ''malformed folding whitespace'')
   \<and> ParseError (NewDkimKey (''a=b; c '' @ [CHR 0x0D, CHR 0x0A] @ ''=d'')) =
        \<lparr>ParseError.Message = ''malformed folding whitespace'', Pos = 0\<rparr>
   \<and> fwsCalls (''a=b'' @ [CHR 0x0D, CHR 0x0A] @ '' '' @ [CHR 0x0D, CHR 0x0A] @ ''c'') =
        [0, 1, 2, 3, 7, 9, 9]
   \<and> malformedFold (drop 6 (''a=b'' @ [CHR 0x0D, CHR 0x0A] @ '' '' @ [CHR 0x0D, CHR 0x0A] @ ''c''))
   \<and> \<not> (\<exists>q \<in> set (fwsCalls (''a=b'' @ [CHR 0x0D, CHR 0x0A] @ '' '' @ [CHR 0x0D, CHR 0x0A] @ ''c'')).
          malformedFold (drop q (''a=b'' @ [CHR 0x0D, CHR 0x0A] @ '' '' @ [CHR 0x0D, CHR 0x0A] @ ''c'')))"
proof -
  let ?A = "''a=b; c '' @ [CHR 0x0D, CHR 0x0A] @ ''=d''"
  let ?B = "''a=b'' @ [CHR 0x0D, CHR 0x0A] @ '' '' @ [CHR 0x0D, CHR 0x0A] @ ''c''"
  have m: "malformedFold (drop 6 ?A)"
    by (simp add: malformedFold_def HasPrefix_def wsp_def)
  have h: "\<exists>q \<in> set (fwsCalls ?A). malformedFold (drop q ?A)"
    unfolding calls_second_round using m by simp
  from malformed_fold_error_carries_no_position [of ?A 0] h
  have a: "NewTagValue ?A = Inl (errorString ''malformed folding whitespace'')"
    "ParseError (NewDkimKey ?A) = \<lparr>ParseError.Message = ''malformed folding whitespace'', Pos = 0\<rparr>"
    by blast+
  have mb: "malformedFold (drop 6 ?B)"
    by (simp add: malformedFold_def HasPrefix_def wsp_def)
  have "NewTagValue ?B \<noteq> Inl (errorString ''malformed folding whitespace'')"
    using parse_fold_then_crlf by simp
  with malformed_fold_error_carries_no_position [of ?B 0]
  have b: "\<not> (\<exists>q \<in> set (fwsCalls ?B). malformedFold (drop q ?B))" by blast
  from calls_second_round m a calls_fold_then_crlf mb b show ?thesis by blast
qed

text \<open>
  C10. A byte that is no value character and no \<open>;\<close> (a control character, a space,
  a byte outside ASCII), standing between two runs of value characters, raises no
  parse error: the parse of \<open>tag=run1 c run2\<close> succeeds with one item whose value is
  the text \<open>run1 c run2\<close>, the byte included as it is.
\<close>

theorem odd_byte_inside_value_is_kept:
  assumes tag: "isAlpha (byte t)" "list_all tagchar ts"
    and r1: "r1 \<noteq> []" "list_all valchar r1"
    and c: "\<not> valchar c" "c \<noteq> CHR '';''"
    and r2: "r2 \<noteq> []" "list_all valchar r2"
  shows "NewTagValue ((t # ts) @ ''='' @ r1 @ [c] @ r2) =
           Inr [\<lparr>Tag = t # ts, Value = r1 @ [c] @ r2, TagPos = 0, ValuePos = length (t # ts) + 1\<rparr>]"
proof -
  define val where "val = r1 @ c # r2"
  define inp where "inp = t # ts @ CHR ''='' # val"
  define p3 where "p3 = Suc (length ts)"
  define it where "it = \<lparr>Tag = t # ts, Value = val, TagPos = 0, ValuePos = Suc p3\<rparr>"
  note ta = isAlpha_byte [OF tag(1)]
  from r1 obtain d ds where r1c: "r1 = d # ds" and d: "valchar d" by (cases r1) auto
  have dn: "\<not> wsp d" "d \<noteq> CHR 0x0D"
    using d by (auto simp: valchar_def wsp_def byte_def)
  have f0: "fws_len (drop 0 inp) = Some 0"
    using ta by (simp add: inp_def fws_len_start)
  have n0: "next_rune (drop (0 + 0) inp) = (byte t, 1)"
    using ta by (simp add: inp_def next_rune_ascii)
  have tw: "takeWhile tagchar (drop (0 + 0 + 1) inp) = ts"
    using tag(2) by (simp add: inp_def list_all_iff takeWhile_append2 not_tagchar_eq)
  have d3: "drop p3 inp = CHR ''='' # val" by (simp add: inp_def p3_def)
  have f3: "fws_len (drop p3 inp) = Some 0"
    unfolding d3 by (rule fws_len_start) (simp_all add: wsp_def)
  have n3: "next_rune (drop p3 inp) = (byte CHR ''='', 1)"
    by (simp add: d3 next_rune_ascii byte_def)
  have d4: "drop (Suc p3) inp = val" by (simp add: inp_def p3_def)
  have f4: "fws_len (drop (Suc p3) inp) = Some 0"
    unfolding d4 val_def r1c using dn by (simp add: fws_len_start)
  have vl: "value_len (drop (Suc p3) inp) = Some (length val, length val)"
    using value_len_run [OF r1(2), of "c # r2"] value_len_odd_byte [OF c r2]
    by (simp add: d4 val_def)
  have sl1: "slice inp 0 p3 = t # ts" by (simp add: slice_def inp_def p3_def)
  have len: "Suc (p3 + length val) = length inp" by (simp add: inp_def p3_def)
  have sl2: "slice inp (Suc p3) (length inp) = val"
    using d4 len by (simp add: slice_def)
  have ts: "tag_spec inp 0 = More it (length inp)"
  proof -
    have "tag_spec inp 0 = More \<lparr>Tag = slice inp 0 p3, Value = slice inp (Suc p3) (Suc p3 + length val),
        TagPos = 0, ValuePos = Suc p3\<rparr> (Suc p3 + length val)"
      unfolding tag_spec_def f0 option.case Let_def n0 prod.case tw 
      using ta(4) tag(1) f3 n3 f4 vl
      by (simp add: p3_def)
    then show ?thesis using len by (simp add: sl1 sl2 it_def)
  qed
  have "parse_loop inp 0 [] = parse_loop inp (length inp) [it]"
    using ts by (subst parse_loop.simps) simp
  also have "\<dots> = Inr [it]"
    by (subst parse_loop.simps) (simp add: tag_spec_end)
  finally show ?thesis
    by (simp add: NewTagValue_eq inp_def val_def it_def p3_def)
qed

theorem odd_byte_inside_value_is_kept_witness:
  "NewTagValue [CHR ''a'', CHR ''='', CHR ''b'', CHR 0x01, CHR ''c''] =
     Inr [\<lparr>Tag = ''a'', Value = [CHR ''b'', CHR 0x01, CHR ''c''], TagPos = 0, ValuePos = 2\<rparr>]"
proof -
  have h1: "isAlpha (byte CHR ''a'')" by (simp add: isAlpha_def byte_def)
  have h2: "list_all tagchar []" by simp
  have h3: "''b'' \<noteq> []" by simp
  have h4: "list_all valchar ''b''" by (simp add: valchar_def byte_def)
  have h5: "\<not> valchar (CHR 0x01)" by (simp add: valchar_def byte_def)
  have h6: "CHR 0x01 \<noteq> CHR '';''" by simp
  have h7: "''c'' \<noteq> []" by simp
  have h8: "list_all valchar ''c''" by (simp add: valchar_def byte_def)
  from odd_byte_inside_value_is_kept [OF h1 h2 h3 h4 h5 h6 h7 h8] show ?thesis by simp
qed




text \<open>
  C7. For every input without CRLF (no fold) and without a repeated tag name that
  parses, the input is the serialization \<open><tag>=<value>;\<close> of the items, in order,
  with spaces and tabs added around the tags and values: either followed by more
  spaces and tabs, or lacking only the \<open>;\<close> of the last item. With empty paddings the
  padded text is the serialization itself.
\<close>

theorem serialization_reproduces_content:
  assumes "NewTagValue inp = Inr items"
    and "\<not> Contains inp [CHR 0x0D, CHR 0x0A]"
    and "distinct (map Tag items)"
  shows "\<exists>pads tail. length pads = length items \<and> list_all blank pads \<and> list_all wsp tail
           \<and> (inp = padded pads items @ tail \<or> inp @ '';'' = padded pads items)
           \<and> padded (map (\<lambda>_. ([], [], [], [])) items) items = serialize items"
proof -
  from assms(1) have "parse_loop inp 0 [] = Inr items" by (simp add: NewTagValue_eq)
  from parse_loop_layout [OF this assms(2)] show ?thesis
    by (auto simp: padded_none)
qed

theorem serialization_reproduces_content_witness:
  "NewTagValue '' a = b c ; d=e ; '' =
     Inr [\<lparr>Tag = ''a'', Value = ''b c'', TagPos = 1, ValuePos = 5\<rparr>,
          \<lparr>Tag = ''d'', Value = ''e'', TagPos = 11, ValuePos = 13\<rparr>]
   \<and> serialize [\<lparr>Tag = ''a'', Value = ''b c'', TagPos = 1, ValuePos = 5\<rparr>,
          \<lparr>Tag = ''d'', Value = ''e'', TagPos = 11, ValuePos = 13\<rparr>] = ''a=b c;d=e;''
   \<and> (\<exists>pads tail. length pads = 2 \<and> list_all blank pads \<and> list_all wsp tail
        \<and> ('' a = b c ; d=e ; '' =
               padded pads [\<lparr>Tag = ''a'', Value = ''b c'', TagPos = 1, ValuePos = 5\<rparr>,
                            \<lparr>Tag = ''d'', Value = ''e'', TagPos = 11, ValuePos = 13\<rparr>] @ tail
           \<or> '' a = b c ; d=e ; '' @ '';'' =
               padded pads [\<lparr>Tag = ''a'', Value = ''b c'', TagPos = 1, ValuePos = 5\<rparr>,
                            \<lparr>Tag = ''d'', Value = ''e'', TagPos = 11, ValuePos = 13\<rparr>]))"
proof -
  let ?items = "[\<lparr>Tag = ''a'', Value = ''b c'', TagPos = 1, ValuePos = 5\<rparr>,
          \<lparr>Tag = ''d'', Value = ''e'', TagPos = 11, ValuePos = 13\<rparr>]"
  have h1: "NewTagValue '' a = b c ; d=e ; '' = Inr ?items"
    by (rule parse_two_padded)
  have h3: "distinct (map Tag ?items)" by simp
  have s: "serialize ?items = ''a=b c;d=e;''" by (simp add: serialize_def)
  from serialization_reproduces_content [OF h1 no_fold_two_padded h3]
  obtain pads tail where "length pads = length ?items" "list_all blank pads" "list_all wsp tail"
    "'' a = b c ; d=e ; '' = padded pads ?items @ tail
       \<or> '' a = b c ; d=e ; '' @ '';'' = padded pads ?items"
    by blast
  then have "\<exists>pads tail. length pads = 2 \<and> list_all blank pads \<and> list_all wsp tail
        \<and> ('' a = b c ; d=e ; '' = padded pads ?items @ tail
           \<or> '' a = b c ; d=e ; '' @ '';'' = padded pads ?items)"
    by (intro exI [of _ pads] exI [of _ tail]) simp
  with h1 s show ?thesis by blast
qed

end
